theory Spec2Isabelle
  imports Complex_Main "HOL-Library.Sublist" "HOL-Library.Multiset"
begin

section \<open>The IDEX synchronisation service (index.ts)\<close>

text \<open>
  The service polls a store for pending sync orders; for every order it resolves the
  cabinets, logs in to each cabinet, walks the cabinet's payout pages and persists the
  records it has not stored yet.  The embedding follows \<^verbatim>\<open>src/index.ts\<close> function by
  function and \<^verbatim>\<open>src/prisma/schema.prisma\<close> for the tables.

  Everything the code does besides computing a value is a field of the record \<open>world\<close>:
  the three tables (named as the store client names them), the trace of store requests, the trace of HTTP requests and the
  trace of timer delays.  What the outside does is given by three oracles that the
  code never changes: \<open>http\<close> (what the remote platform answers to the n-th request),
  \<open>db_fault\<close> (whether the store rejects the n-th request before executing it) and
  \<open>schedule\<close> (which of several store calls that are pending together is answered next).
  A function of the source that may throw returns \<open>error + 'a\<close> beside the new world.

  Fields that only hold clock readings (\<open>expirationDate\<close> of a cookie, \<open>startSyncAt\<close>,
  \<open>endSyncAt\<close>, \<open>createdAt\<close>, \<open>updatedAt\<close>) and the surrogate key of a transaction row
  are left out: no branch of the code reads them.  Console output and the poll loop
  \<open>watchForSyncOrders\<close> around the order processor are not modelled.
  Record fields carry a prefix where the source uses one name in several types.
\<close>

subsection \<open>Constants\<close>

definition BASE_DELAY :: int where
  "BASE_DELAY = 1000"

definition MAX_RETRIES :: nat where
  "MAX_RETRIES = 5"

definition DEFAULT_PAGES_TO_FETCH :: int where
  "DEFAULT_PAGES_TO_FETCH = 10"

subsection \<open>Data\<close>

text \<open>A JSON value the code passes on without looking inside, as its text.\<close>

type_synonym json = string

text \<open>
  The interface \<open>Cookie\<close>.  \<open>login\<close> fills every field but name and value with a
  constant.
\<close>

record Cookie =
  cookie_domain :: string
  cookie_hostOnly :: bool
  cookie_httpOnly :: bool
  cookie_name :: string
  cookie_path :: string
  cookie_secure :: bool
  cookie_session :: bool
  cookie_value :: string

text \<open>
  The interface \<open>Transaction\<close>: one record of the remote feed.  The identifiers are the
  integers the platform assigns; they reach the code as JavaScript numbers, that is as
  doubles: every integer below \<open>2^53\<close> in size is one, a larger integer only when its
  53 leading bits hold all of it.  The two
  optional timestamps are kept as epoch milliseconds (\<open>None\<close> when the field is
  missing or empty), so that the parsing and printing of dates is not part of the
  model.  \<open>t_extraData\<close> holds every other property of the record.
\<close>

record Transaction =
  t_id :: int
  t_payment_method_id :: int
  t_wallet :: string
  t_amount :: json
  t_total :: json
  t_status :: int
  t_approved_at :: "int option"
  t_expired_at :: "int option"
  t_created_at :: string
  t_updated_at :: string
  t_extraData :: "(string \<times> json) list"

text \<open>The model \<open>IdexTransaction\<close> of the schema, unique on \<open>(externalId, cabinetId)\<close>.\<close>

record IdexTransaction =
  externalId :: int
  paymentMethodId :: int
  wallet :: string
  amount :: json
  total :: json
  status :: int
  approvedAt :: "int option"
  expiredAt :: "int option"
  createdAtExternal :: string
  updatedAtExternal :: string
  extraData :: "(string \<times> json) list"
  cabinetId :: int

text \<open>The model \<open>IdexCabinet\<close>.\<close>

record IdexCabinet =
  cab_id :: int
  cab_idexId :: int
  cab_login :: string
  cab_password :: string

text \<open>What the remote platform can answer.\<close>

datatype header_number = HNumber int | HNaN

datatype body = NoBody | Body "Transaction list option" "Transaction list option"

record http_response =
  resp_status :: int
  resp_set_cookie :: "string list option"
  resp_retry_after :: "header_number option"
  resp_data :: body

text \<open>
  \<open>resp_set_cookie\<close> is \<open>headers['set-cookie']\<close> (\<open>None\<close> when the header is missing).
  \<open>resp_retry_after\<close> is \<open>headers['retry-after']\<close> as \<open>parseInt\<close> reads it: \<open>None\<close> when
  the header is missing or empty (the code then takes its own delay), \<open>HNaN\<close> when the
  text does not start with a number.
  \<open>resp_data\<close> is the parsed body: \<open>NoBody\<close> for \<open>null\<close> or \<open>undefined\<close>; otherwise
  \<open>Body d p\<close> where \<open>d\<close> is \<open>json.data\<close> when that is an array and \<open>p\<close> is
  \<open>json.response.payouts.data\<close> when that path exists and is an array.

  An axios call either resolves with a response or rejects with an error that may
  carry a response.
\<close>

datatype http_outcome = Resolved http_response | Rejected "http_response option"

datatype http_request = LoginPost string string | PayoutsGet string int

text \<open>
  Everything that is thrown.  The first six are the \<open>Error\<close> objects the code creates
  (they differ in the message only); \<open>AxiosError\<close> is a rejection of the HTTP client,
  rethrown as it is; \<open>PrismaError code message\<close> is an error of the store client;
  \<open>TypeError\<close> and \<open>ReferenceError\<close> are raised by the language.
\<close>

datatype error =
    NoCookies
  | MissingCookies
  | TooManyRequests
  | LoginStatus int
  | FetchStatus int
  | UnexpectedStructure
  | CabinetNotFound int
  | NoCabinets
  | AxiosError "http_response option"
  | PrismaError string string
  | TypeError
  | ReferenceError

text \<open>The enum \<open>IdexSyncOrderStatus\<close> and the model \<open>IdexSyncOrder\<close>.\<close>

datatype IdexSyncOrderStatus = PENDING | IN_PROGRESS | COMPLETED | FAILED

text \<open>
  The JSON column \<open>processed\<close>: an array with one entry per cabinet, or the object
  \<open>{error: message}\<close>.  An entry keeps the thrown value where the source keeps its
  message.
\<close>

datatype cabinet_result = CabinetSynced int nat nat | CabinetFailed int error

datatype processed = Results "cabinet_result list" | OrderError error

record IdexSyncOrder =
  ord_id :: int
  ord_cabinetId :: "int option"
  ord_processed :: "processed option"
  ord_status :: IdexSyncOrderStatus
  ord_pages :: "int list"

text \<open>The requests the code sends to the store, with their arguments.\<close>

datatype db_request =
    OrderFindMany IdexSyncOrderStatus
  | OrderUpdate int IdexSyncOrderStatus "processed option"
  | CabinetFindUnique int
  | CabinetFindMany
  | TransactionFindManyIn "int list"
  | TransactionFindManyCabinet int
  | TransactionCreate IdexTransaction

record world =
  idexSyncOrder :: "IdexSyncOrder list"
  idexCabinet :: "IdexCabinet list"
  idexTransaction :: "IdexTransaction list"
  db_fault :: "db_request \<Rightarrow> nat \<Rightarrow> error option"
  db_log :: "db_request list"
  http :: "http_request \<Rightarrow> nat \<Rightarrow> http_outcome"
  http_log :: "http_request list"
  timers :: "real option list"
  schedule :: "nat \<Rightarrow> nat"

text \<open>
  \<open>db_log\<close> and \<open>http_log\<close> list the requests made so far, oldest first; the oracles
  are asked with the request and its position in the trace.  \<open>timers\<close> lists the delays
  handed to \<open>setTimeout\<close> and awaited, \<open>None\<close> for \<open>NaN\<close>.  \<open>schedule\<close> is asked with
  the number of store requests made so far and is read modulo the number of calls that
  are pending.
\<close>

subsection \<open>Timers, HTTP calls, store calls\<close>

definition sleep :: "real option \<Rightarrow> world \<Rightarrow> world" where
  "sleep ms w = w\<lparr>timers := timers w @ [ms]\<rparr>"

definition http_call :: "http_request \<Rightarrow> world \<Rightarrow> http_outcome \<times> world" where
  "http_call req w = (http w req (length (http_log w)), w\<lparr>http_log := http_log w @ [req]\<rparr>)"

text \<open>
  A store call is logged; it is rejected when the oracle says so and executed on the
  tables otherwise.
\<close>

definition db_call ::
  "db_request \<Rightarrow> (world \<Rightarrow> (error + 'a) \<times> world) \<Rightarrow> world \<Rightarrow> (error + 'a) \<times> world" where
  "db_call req run w =
     (let w1 = w\<lparr>db_log := db_log w @ [req]\<rparr> in
      case db_fault w req (length (db_log w)) of
        Some e \<Rightarrow> (Inl e, w1)
      | None \<Rightarrow> run w1)"

subsection \<open>withRetry\<close>

text \<open>\<open>String.prototype.includes\<close>.\<close>

fun str_includes :: "string \<Rightarrow> string \<Rightarrow> bool" where
  "str_includes [] p = (p = [])"
| "str_includes (c # cs) p = (prefix p (c # cs) \<or> str_includes cs p)"

text \<open>
  The condition under which \<open>withRetry\<close> tries again: the error has the code \<open>P1001\<close>
  and its message contains the text below.
\<close>

definition unreachable :: "error \<Rightarrow> bool" where
  "unreachable e =
     (case e of
        PrismaError code message \<Rightarrow>
          code = ''P1001'' \<and> str_includes message ''Can't reach database server''
      | _ \<Rightarrow> False)"

text \<open>
  \<open>withRetry(fn, retries = 3, delay = 2000)\<close>.  The delay is a JavaScript number; the
  model multiplies exactly, as the doubles do for the delays that occur.
\<close>

fun withRetry ::
  "(world \<Rightarrow> (error + 'a) \<times> world) \<Rightarrow> nat \<Rightarrow> real \<Rightarrow> world \<Rightarrow> (error + 'a) \<times> world" where
  "withRetry fn retries delay w =
     (case fn w of
        (Inr v, w1) \<Rightarrow> (Inr v, w1)
      | (Inl e, w1) \<Rightarrow>
          if retries > 0 \<and> unreachable e
          then withRetry fn (retries - 1) (delay * 1.5) (sleep (Some delay) w1)
          else (Inl e, w1))"

declare withRetry.simps [simp del]

text \<open>The call with both defaults, as every caller in the source writes it.\<close>

definition withRetry_default :: "(world \<Rightarrow> (error + 'a) \<times> world) \<Rightarrow> world \<Rightarrow> (error + 'a) \<times> world" where
  "withRetry_default fn = withRetry fn 3 2000"

subsection \<open>determinePages\<close>

text \<open>Reading a JavaScript array: \<open>undefined\<close> (here \<open>None\<close>) outside its range.\<close>

definition js_index :: "'a list \<Rightarrow> int \<Rightarrow> 'a option" where
  "js_index xs i = (if 0 \<le> i \<and> i < int (length xs) then Some (xs ! nat i) else None)"

text \<open>\<open>pages\<close> is \<open>None\<close> when the argument is \<open>null\<close> or \<open>undefined\<close>.\<close>

definition determinePages :: "int list option \<Rightarrow> int \<Rightarrow> int option" where
  "determinePages pages cabinetIndex =
     (case pages of
        None \<Rightarrow> Some DEFAULT_PAGES_TO_FETCH
      | Some ps \<Rightarrow>
          if length ps = 0 then Some DEFAULT_PAGES_TO_FETCH
          else if length ps = 1 then js_index ps 0
          else js_index ps (min cabinetIndex (int (length ps) - 1)))"

subsection \<open>login\<close>

text \<open>
  \<open>String.prototype.split\<close> with a separator of one character: the first piece and the
  list of the others (the array of the source is never empty).  \<open>join\<close> is
  \<open>Array.prototype.join\<close>.
\<close>

fun split :: "char \<Rightarrow> string \<Rightarrow> string \<times> string list" where
  "split c [] = ([], [])"
| "split c (x # xs) =
     (case split c xs of (p, ps) \<Rightarrow> if x = c then ([], p # ps) else (x # p, ps))"

fun join :: "string \<Rightarrow> string list \<Rightarrow> string" where
  "join sep [] = []"
| "join sep [x] = x"
| "join sep (x # y # ys) = x @ sep @ join sep (y # ys)"

text \<open>
  The body of the loop over the \<open>Set-Cookie\<close> lines: the name is what stands before the
  first \<open>=\<close> of the text before the first \<open>;\<close>, the value is the rest of that text; the
  line is kept when the name is \<open>sid\<close> or \<open>rsid\<close>.
\<close>

definition make_cookie :: "string \<Rightarrow> string \<Rightarrow> Cookie" where
  "make_cookie name val =
     \<lparr>cookie_domain = ''.panel.gate.cx'', cookie_hostOnly = False, cookie_httpOnly = True,
      cookie_name = name, cookie_path = ''/'', cookie_secure = True, cookie_session = False,
      cookie_value = val\<rparr>"

fun session_cookies :: "string list \<Rightarrow> Cookie list" where
  "session_cookies [] = []"
| "session_cookies (cookieStr # cookies) =
     (case split CHR '';'' cookieStr of (first, _) \<Rightarrow>
      case split CHR ''='' first of (name, rest) \<Rightarrow>
        if name = ''sid'' \<or> name = ''rsid''
        then make_cookie name (join ''='' rest) # session_cookies cookies
        else session_cookies cookies)"

text \<open>
  The delay before the next attempt after a 429:
  \<open>parseInt(headers['retry-after'] || String(delay))\<close>.
\<close>

definition retry_delay :: "http_response \<Rightarrow> int \<Rightarrow> real option" where
  "retry_delay response delay =
     (case resp_retry_after response of
        None \<Rightarrow> Some (real_of_int delay)
      | Some (HNumber n) \<Rightarrow> Some (real_of_int n)
      | Some HNaN \<Rightarrow> None)"

record credentials =
  cred_login :: string
  cred_password :: string

text \<open>
  The \<open>while (true)\<close> loop of \<open>login\<close>, with its two variables as arguments.  An \<open>Error\<close>
  thrown inside the \<open>try\<close> block is caught by the \<open>catch\<close> block, which throws it again,
  since it carries no response; so each \<open>throw\<close> of the block ends the function.
\<close>

function login_loop ::
  "credentials \<Rightarrow> nat \<Rightarrow> int \<Rightarrow> world \<Rightarrow> (error + Cookie list) \<times> world" where
  "login_loop creds retryCount delay w =
     (case http_call (LoginPost (cred_login creds) (cred_password creds)) w of
        (Resolved response, w1) \<Rightarrow>
          if resp_status response = 200 then
            (let cookies = (case resp_set_cookie response of None \<Rightarrow> [] | Some cs \<Rightarrow> cs) in
             if length cookies = 0 then (Inl NoCookies, w1)
             else
               let result = session_cookies cookies in
               if length result < 2 then (Inl MissingCookies, w1)
               else (Inr result, w1))
          else if resp_status response = 429 then
            (if retryCount \<ge> MAX_RETRIES then (Inl TooManyRequests, w1)
             else login_loop creds (retryCount + 1) (delay * 2)
                    (sleep (retry_delay response delay) w1))
          else (Inl (LoginStatus (resp_status response)), w1)
      | (Rejected None, w1) \<Rightarrow> (Inl (AxiosError None), w1)
      | (Rejected (Some response), w1) \<Rightarrow>
          if resp_status response = 429 then
            (if retryCount \<ge> MAX_RETRIES then (Inl TooManyRequests, w1)
             else login_loop creds (retryCount + 1) (delay * 2)
                    (sleep (retry_delay response delay) w1))
          else (Inl (AxiosError (Some response)), w1))"
  by pat_completeness auto
termination
  by (relation "measure (\<lambda>(creds, retryCount, delay, w). MAX_RETRIES - retryCount)") auto

declare login_loop.simps [simp del]

definition login :: "credentials \<Rightarrow> world \<Rightarrow> (error + Cookie list) \<times> world" where
  "login creds w = login_loop creds 0 BASE_DELAY w"

subsection \<open>fetchTransactionsPage\<close>

text \<open>The \<open>Cookie\<close> header: \<open>name=value\<close> of every cookie, joined by \<open>; \<close>.\<close>

definition cookie_header :: "Cookie list \<Rightarrow> string" where
  "cookie_header cookies = join ''; '' (map (\<lambda>c. cookie_name c @ ''='' @ cookie_value c) cookies)"

text \<open>
  What the code takes from a body: \<open>json.data\<close> when it is an array, else
  \<open>json.response.payouts.data\<close> when it is one; reading a property of \<open>null\<close> throws.
\<close>

definition page_data :: "body \<Rightarrow> error + Transaction list" where
  "page_data json =
     (case json of
        NoBody \<Rightarrow> Inl TypeError
      | Body (Some d) _ \<Rightarrow> Inr d
      | Body None (Some d) \<Rightarrow> Inr d
      | Body None None \<Rightarrow> Inl UnexpectedStructure)"

function page_loop ::
  "string \<Rightarrow> int \<Rightarrow> nat \<Rightarrow> int \<Rightarrow> world \<Rightarrow> (error + Transaction list) \<times> world" where
  "page_loop cookieStr page retryCount delay w =
     (case http_call (PayoutsGet cookieStr page) w of
        (Resolved response, w1) \<Rightarrow>
          if resp_status response = 200 then (page_data (resp_data response), w1)
          else if resp_status response = 429 then
            (if retryCount \<ge> MAX_RETRIES then (Inl TooManyRequests, w1)
             else page_loop cookieStr page (retryCount + 1) (delay * 2)
                    (sleep (retry_delay response delay) w1))
          else (Inl (FetchStatus (resp_status response)), w1)
      | (Rejected None, w1) \<Rightarrow> (Inl (AxiosError None), w1)
      | (Rejected (Some response), w1) \<Rightarrow>
          if resp_status response = 429 then
            (if retryCount \<ge> MAX_RETRIES then (Inl TooManyRequests, w1)
             else page_loop cookieStr page (retryCount + 1) (delay * 2)
                    (sleep (retry_delay response delay) w1))
          else (Inl (AxiosError (Some response)), w1))"
  by pat_completeness auto
termination
  by (relation "measure (\<lambda>(cookieStr, page, retryCount, delay, w). MAX_RETRIES - retryCount)") auto

declare page_loop.simps [simp del]

definition fetchTransactionsPage ::
  "Cookie list \<Rightarrow> int \<Rightarrow> world \<Rightarrow> (error + Transaction list) \<times> world" where
  "fetchTransactionsPage cookies page w = page_loop (cookie_header cookies) page 0 BASE_DELAY w"

subsection \<open>The store\<close>

text \<open>
  The operations of the store client that the code calls, on the tables of the world.
  \<open>update\<close> fails when no row has the id.  \<open>create\<close> enforces the schema of
  \<open>IdexTransaction\<close>: the types of the columns (a \<open>BigInt\<close> column holds a signed integer
  of 64 bits, an \<open>Int\<close> column one of 32 bits), the unique pair \<open>(externalId, cabinetId)\<close>
  and the relation to an existing cabinet.
\<close>

definition int32 :: "int \<Rightarrow> bool" where
  "int32 n \<longleftrightarrow> - (2 ^ 31) \<le> n \<and> n < 2 ^ 31"

definition int64 :: "int \<Rightarrow> bool" where
  "int64 n \<longleftrightarrow> - (2 ^ 63) \<le> n \<and> n < 2 ^ 63"

definition idexSyncOrder_findMany ::
  "IdexSyncOrderStatus \<Rightarrow> world \<Rightarrow> (error + IdexSyncOrder list) \<times> world" where
  "idexSyncOrder_findMany st =
     db_call (OrderFindMany st) (\<lambda>w. (Inr (filter (\<lambda>ord. ord_status ord = st) (idexSyncOrder w)), w))"

text \<open>
  \<open>data\<close> of an update: the status, and \<open>processed\<close> when the update names it.  The
  operation \<open>idexSyncOrder.update\<close> is called \<open>idexSyncOrder_update_by_id\<close> here, since
  the record \<open>world\<close> owns the name with the plain suffix.
\<close>

definition update_order :: "IdexSyncOrderStatus \<Rightarrow> processed option \<Rightarrow> IdexSyncOrder \<Rightarrow> IdexSyncOrder" where
  "update_order st proc ord =
     ord\<lparr>ord_status := st,
         ord_processed := (case proc of None \<Rightarrow> ord_processed ord | Some p \<Rightarrow> Some p)\<rparr>"

definition idexSyncOrder_update_by_id ::
  "int \<Rightarrow> IdexSyncOrderStatus \<Rightarrow> processed option \<Rightarrow> world \<Rightarrow> (error + IdexSyncOrder) \<times> world" where
  "idexSyncOrder_update_by_id oid st proc =
     db_call (OrderUpdate oid st proc)
       (\<lambda>w. case find (\<lambda>ord. ord_id ord = oid) (idexSyncOrder w) of
               None \<Rightarrow> (Inl (PrismaError ''P2025'' ''Record to update not found.''), w)
             | Some ord \<Rightarrow>
                 (Inr (update_order st proc ord),
                  w\<lparr>idexSyncOrder := map (\<lambda>x. if ord_id x = oid then update_order st proc x else x)
                                 (idexSyncOrder w)\<rparr>))"

definition idexCabinet_findUnique :: "int \<Rightarrow> world \<Rightarrow> (error + IdexCabinet option) \<times> world" where
  "idexCabinet_findUnique cid =
     db_call (CabinetFindUnique cid) (\<lambda>w. (Inr (find (\<lambda>c. cab_id c = cid) (idexCabinet w)), w))"

definition idexCabinet_findMany :: "world \<Rightarrow> (error + IdexCabinet list) \<times> world" where
  "idexCabinet_findMany = db_call CabinetFindMany (\<lambda>w. (Inr (idexCabinet w), w))"

text \<open>
  Two kinds of JavaScript values meet in the duplicate check of \<open>fetchTransactions\<close>.
  The id of a feed record is a number (\<open>Transaction.id\<close>, parsed from JSON).  The column
  \<open>externalId\<close> is declared \<open>BigInt\<close> in the schema, and the store client hands such a
  column back as a bigint; this is why \<open>saveTransactions\<close> writes it with \<open>BigInt(id)\<close>
  and reads it with \<open>t.externalId.toString()\<close>.
\<close>

datatype js_value = JSNumber int | JSBigInt int

text \<open>
  \<open>findMany({where: {externalId: {in: externalIds}}, select: {externalId: true}})\<close>:
  the filter compares by numeric value; a row of the answer has the one field
  \<open>externalId\<close> and is kept as that value, a bigint.
\<close>

definition idexTransaction_findMany_in :: "int list \<Rightarrow> world \<Rightarrow> (error + js_value list) \<times> world" where
  "idexTransaction_findMany_in externalIds =
     db_call (TransactionFindManyIn externalIds)
       (\<lambda>w. (Inr (map (\<lambda>r. JSBigInt (externalId r))
                    (filter (\<lambda>r. externalId r \<in> set externalIds) (idexTransaction w))), w))"

text \<open>\<open>findMany({where: {cabinetId}, select: {externalId: true, cabinetId: true}})\<close>.\<close>

definition idexTransaction_findMany_cabinet ::
  "int \<Rightarrow> world \<Rightarrow> (error + (int \<times> int) list) \<times> world" where
  "idexTransaction_findMany_cabinet cid =
     db_call (TransactionFindManyCabinet cid)
       (\<lambda>w. (Inr (map (\<lambda>r. (externalId r, cabinetId r))
                    (filter (\<lambda>r. cabinetId r = cid) (idexTransaction w))), w))"

text \<open>
  \<open>create({data})\<close>.  A value outside the range of its column is rejected before the
  row is compared with the table; every such rejection has the code \<open>P2020\<close> here.
\<close>

definition idexTransaction_create ::
  "IdexTransaction \<Rightarrow> world \<Rightarrow> (error + IdexTransaction) \<times> world" where
  "idexTransaction_create row =
     db_call (TransactionCreate row)
       (\<lambda>w. if \<not> (int64 (externalId row) \<and> int64 (paymentMethodId row) \<and>
                    int32 (status row) \<and> int32 (cabinetId row))
             then (Inl (PrismaError ''P2020'' ''Value out of range for the type''), w)
             else if \<exists>r \<in> set (idexTransaction w).
                  externalId r = externalId row \<and> cabinetId r = cabinetId row
             then (Inl (PrismaError ''P2002'' ''Unique constraint failed''), w)
             else if \<not> (\<exists>c \<in> set (idexCabinet w). cab_id c = cabinetId row)
             then (Inl (PrismaError ''P2003'' ''Foreign key constraint failed''), w)
             else (Inr row, w\<lparr>idexTransaction := idexTransaction w @ [row]\<rparr>))"

subsection \<open>fetchTransactions\<close>

text \<open>
  \<open>new Set(xs)\<close> is kept as the list \<open>xs\<close>; \<open>Set.prototype.has\<close> compares with
  SameValueZero, under which two values are the same only when they have the same type
  and the same value: a bigint is never the same as a number.
\<close>

definition has :: "'a list \<Rightarrow> 'a \<Rightarrow> bool" where
  "has s v = (v \<in> set s)"

text \<open>
  The body of the \<open>for\<close> loop of \<open>fetchTransactions\<close>: the new value of
  \<open>allTransactions\<close>, and whether the body ends in \<open>break\<close>.  The \<open>try\<close> block holds
  the page request and the store query, so an error of either is logged and the loop
  goes on with the next page.
\<close>

definition fetch_page ::
  "Cookie list \<Rightarrow> int \<Rightarrow> Transaction list \<Rightarrow> world \<Rightarrow> (bool \<times> Transaction list) \<times> world" where
  "fetch_page cookies page allTransactions w =
     (let w0 = (if page > 1 then sleep (Some (real_of_int BASE_DELAY)) w else w) in
      case fetchTransactionsPage cookies page w0 of
        (Inl e, w1) \<Rightarrow> ((False, allTransactions), w1)
      | (Inr transactions, w1) \<Rightarrow>
          if length transactions > 0 then
            (let externalIds = map t_id transactions in
             case withRetry_default (idexTransaction_findMany_in externalIds) w1 of
               (Inl e, w2) \<Rightarrow> ((False, allTransactions), w2)
             | (Inr existingTransactions, w2) \<Rightarrow>
                 let existingIds = existingTransactions;
                     newTransactions =
                       filter (\<lambda>t. \<not> has existingIds (JSNumber (t_id t))) transactions
                 in ((length newTransactions = 0, allTransactions @ newTransactions), w2))
          else ((False, allTransactions), w1))"

text \<open>The loop: \<open>for (let page = 1; page <= pages; page++)\<close>, started at \<open>page\<close>.\<close>

function fetch_loop ::
  "Cookie list \<Rightarrow> int \<Rightarrow> int \<Rightarrow> Transaction list \<Rightarrow> world \<Rightarrow> Transaction list \<times> world" where
  "fetch_loop cookies pages page allTransactions w =
     (if page \<le> pages then
        (case fetch_page cookies page allTransactions w of
           ((stop, allTransactions'), w1) \<Rightarrow>
             if stop then (allTransactions', w1)
             else fetch_loop cookies pages (page + 1) allTransactions' w1)
      else (allTransactions, w))"
  by pat_completeness auto
termination
  by (relation "measure (\<lambda>(cookies, pages, page, allTransactions, w). nat (pages + 1 - page))") auto

declare fetch_loop.simps [simp del]

text \<open>
  \<open>pages\<close> has the default \<open>DEFAULT_PAGES_TO_FETCH\<close>, which JavaScript takes when the
  argument is \<open>undefined\<close>.
\<close>

definition fetchTransactions ::
  "Cookie list \<Rightarrow> int option \<Rightarrow> world \<Rightarrow> Transaction list \<times> world" where
  "fetchTransactions cookies pages w =
     fetch_loop cookies (case pages of None \<Rightarrow> DEFAULT_PAGES_TO_FETCH | Some n \<Rightarrow> n) 1 [] w"

subsection \<open>saveTransactions\<close>

text \<open>
  Two conversions to text meet in the keys of \<open>saveTransactions\<close>.  The first is
  \<open>BigInt.prototype.toString\<close>: the exact decimal text of an integer.
\<close>

definition digit :: "int \<Rightarrow> char" where
  "digit n = ''0123456789'' ! nat n"

function decimal :: "int \<Rightarrow> string" where
  "decimal n = (if n < 10 then [digit n] else decimal (n div 10) @ [digit (n mod 10)])"
  by pat_completeness auto
termination
  by (relation "measure nat") auto

declare decimal.simps [simp del]

definition BigInt_toString :: "int \<Rightarrow> string" where
  "BigInt_toString i = (if i < 0 then CHR ''-'' # decimal (- i) else decimal i)"

text \<open>
  The second is the text of a number inside a template literal, which is what
  \<open>Number.prototype.toString\<close> gives.  A number is a double: \<open>width b n\<close> is the number
  of digits of \<open>n\<close> to the base \<open>b\<close>, and \<open>nearest_double n\<close> keeps the 53 leading bits of
  \<open>n\<close>, rounded to the nearest, to the even one on a tie (the exponent of a double is
  bounded, which the model leaves out: it has no infinite number).
\<close>

function width :: "int \<Rightarrow> int \<Rightarrow> nat" where
  "width b n = (if n \<le> 0 \<or> b < 2 then 0 else Suc (width b (n div b)))"
  by pat_completeness auto
termination
  by (relation "measure (\<lambda>(b, n). nat n)") (auto intro!: int_div_less_self)

declare width.simps [simp del]

definition nearest_double :: "int \<Rightarrow> int" where
  "nearest_double n =
     (let e = width 2 n - 53; q = n div 2 ^ e; r = n mod 2 ^ e in
      if e = 0 then n
      else if 2 * r > 2 ^ e \<or> (2 * r = 2 ^ e \<and> odd q) then (q + 1) * 2 ^ e
      else q * 2 ^ e)"

text \<open>
  The text of a number has the fewest digits that still read back as the same double,
  followed by zeros.  \<open>candidate x m\<close> looks at the two multiples of \<open>10^m\<close> next to \<open>x\<close>
  and takes the one that reads back as \<open>x\<close>: the nearer one when both do, the one with
  the even last digit when they are equally near.  \<open>shortest x m\<close> is the candidate with
  the most zeros, at most \<open>m\<close>.  A value of up to 21 digits is printed in full; a longer
  one is printed as \<open>d.ddde+n\<close>, without its zeros.
\<close>

definition candidate :: "int \<Rightarrow> nat \<Rightarrow> int option" where
  "candidate x m =
     (let lo = (x div 10 ^ m) * 10 ^ m; hi = lo + 10 ^ m;
          lo_ok = (lo > 0 \<and> nearest_double lo = x); hi_ok = (nearest_double hi = x) in
      if lo_ok \<and> hi_ok then
        (if x - lo < hi - x then Some lo
         else if hi - x < x - lo then Some hi
         else if even (lo div 10 ^ m) then Some lo else Some hi)
      else if lo_ok then Some lo
      else if hi_ok then Some hi
      else None)"

fun shortest :: "int \<Rightarrow> nat \<Rightarrow> int" where
  "shortest x 0 = x"
| "shortest x (Suc m) = (case candidate x (Suc m) of Some v \<Rightarrow> v | None \<Rightarrow> shortest x m)"

function strip :: "int \<Rightarrow> int" where
  "strip n = (if n \<le> 0 \<or> n mod 10 \<noteq> 0 then n else strip (n div 10))"
  by pat_completeness auto
termination
  by (relation "measure nat") (auto intro!: int_div_less_self)

declare strip.simps [simp del]

definition number_digits :: "int \<Rightarrow> string" where
  "number_digits n =
     (let x = nearest_double n; v = shortest x (width 10 x); k = width 10 v in
      if k \<le> 21 then decimal v
      else (case decimal (strip v) of
              [] \<Rightarrow> []
            | d # ds \<Rightarrow>
                d # (if ds = [] then [] else CHR ''.'' # ds) @ ''e+'' @ decimal (int k - 1)))"

definition Number_toString :: "int \<Rightarrow> string" where
  "Number_toString n = (if n < 0 then CHR ''-'' # number_digits (- n) else number_digits n)"

text \<open>
  The key of a pair in the set of existing pairs: the text of the external id and the
  cabinet id, joined by \<open>_\<close>.  The cabinet id is a number on both sides; the external id
  is a bigint of the store on one side (\<open>t.externalId.toString()\<close>) and a number of the
  feed on the other (\<open>t.id\<close> inside the template).
\<close>

definition pair_key :: "string \<Rightarrow> int \<Rightarrow> string" where
  "pair_key external_id cabinet_id = external_id @ ''_'' @ Number_toString cabinet_id"

text \<open>
  \<open>data\<close> of the \<open>create\<close> call: the named fields of the record, both timestamps
  moved by three hours, and every other property in \<open>extraData\<close>.  \<open>BigInt(id)\<close> is the
  integer the number stands for.
\<close>

definition shift_hours :: "int option \<Rightarrow> int option" where
  "shift_hours stamp = map_option (\<lambda>ms. ms + 3 * 60 * 60 * 1000) stamp"

definition create_data :: "Transaction \<Rightarrow> int \<Rightarrow> IdexTransaction" where
  "create_data t cabinet_id =
     \<lparr>externalId = t_id t, paymentMethodId = t_payment_method_id t, wallet = t_wallet t,
      amount = t_amount t, total = t_total t, status = t_status t,
      approvedAt = shift_hours (t_approved_at t), expiredAt = shift_hours (t_expired_at t),
      createdAtExternal = t_created_at t, updatedAtExternal = t_updated_at t,
      extraData = t_extraData t, cabinetId = cabinet_id\<rparr>"

text \<open>
  The argument of \<open>Promise.all\<close> is an array of calls \<open>withRetry(fn)\<close> that are all started
  before any of them is awaited: their requests are with the store together, and the
  store answers them in an order of its own.  A call is \<open>Pending fn retries delay\<close> while
  \<open>withRetry(fn, retries, delay)\<close> waits for the answer to its request, and \<open>Settled v\<close>
  once it has returned \<open>v\<close>.  \<open>attempt\<close> is one turn of \<open>withRetry\<close>, from the answer to
  the next request or to the end of the call.
\<close>

datatype 'a call = Pending "world \<Rightarrow> (error + 'a) \<times> world" nat real | Settled 'a

definition attempt :: "'a call \<Rightarrow> world \<Rightarrow> (error + 'a call) \<times> world" where
  "attempt c w =
     (case c of
        Settled v \<Rightarrow> (Inr (Settled v), w)
      | Pending fn retries delay \<Rightarrow>
          (case fn w of
             (Inr v, w1) \<Rightarrow> (Inr (Settled v), w1)
           | (Inl e, w1) \<Rightarrow>
               if retries > 0 \<and> unreachable e
               then (Inr (Pending fn (retries - 1) (delay * 1.5)), sleep (Some delay) w1)
               else (Inl e, w1)))"

text \<open>The call \<open>withRetry(fn)\<close> with both defaults, when it is started.\<close>

definition withRetry_call :: "(world \<Rightarrow> (error + 'a) \<times> world) \<Rightarrow> 'a call" where
  "withRetry_call fn = Pending fn 3 2000"

fun settled :: "'a call \<Rightarrow> bool" where
  "settled (Settled v) = True"
| "settled (Pending fn retries delay) = False"

fun retries_left :: "'a call \<Rightarrow> nat" where
  "retries_left (Settled v) = 0"
| "retries_left (Pending fn retries delay) = Suc retries"

fun settled_values :: "'a call list \<Rightarrow> 'a list" where
  "settled_values [] = []"
| "settled_values (Settled v # calls) = v # settled_values calls"
| "settled_values (Pending fn retries delay # calls) = settled_values calls"

definition waiting :: "'a call list \<Rightarrow> nat list" where
  "waiting calls = filter (\<lambda>i. \<not> settled (calls ! i)) [0 ..< length calls]"

text \<open>
  \<open>Promise.all\<close>.  While a call is pending the oracle \<open>schedule\<close> names the pending call
  that is answered next.  When every call has settled, the promise is fulfilled with the
  values in the order of the array.  When a call throws, the promise is rejected with
  that error at once: this is the first rejection in time, whatever the place of the call
  in the array.  The calls that are still pending then are neither awaited nor cancelled
  by the source.  The store has not served them at that moment: the world that
  \<open>promise_all\<close> returns is the world of that moment, and what these calls do to the
  table afterwards is, like the writes of any other client of the store, not part of
  the model.
\<close>

function promise_all :: "'a call list \<Rightarrow> world \<Rightarrow> (error + 'a list) \<times> world" where
  "promise_all calls w =
     (if waiting calls = [] then (Inr (settled_values calls), w)
      else
        let i = waiting calls ! (schedule w (length (db_log w)) mod length (waiting calls)) in
        case attempt (calls ! i) w of
          (Inl e, w1) \<Rightarrow> (Inl e, w1)
        | (Inr c, w1) \<Rightarrow> promise_all (calls[i := c]) w1)"
  by pat_completeness auto
termination
proof (relation "measure (\<lambda>(calls, w). sum_list (map retries_left calls))", goal_cases)
  case 1
  show ?case by simp
next
  case (2 calls w i res w1 c)
  let ?ps = "waiting calls"
  from 2(1) have "?ps ! (schedule w (length (db_log w)) mod length ?ps) \<in> set ?ps"
    by (intro nth_mem) simp
  with 2(2) have i: "i < length calls" "\<not> settled (calls ! i)" by (auto simp: waiting_def)
  obtain fn retries delay where p: "calls ! i = Pending fn retries delay"
    using i(2) by (cases "calls ! i") auto
  from 2(3,4) p have less: "retries_left c < retries_left (calls ! i)"
    by (auto simp: attempt_def split: prod.splits sum.splits if_splits)
  have "sum_list (map retries_left (calls[i := c])) =
          sum_list (map retries_left calls) + retries_left c - retries_left (calls ! i)"
    using i(1) by (simp add: map_update sum_list_update)
  moreover have "retries_left (calls ! i) \<le> sum_list (map retries_left calls)"
    using i(1) by (intro member_le_sum_list) simp_all
  ultimately show ?case using less by simp
qed

declare promise_all.simps [simp del]

definition saveTransactions ::
  "Transaction list \<Rightarrow> int \<Rightarrow> world \<Rightarrow> (error + IdexTransaction list) \<times> world" where
  "saveTransactions transactions cabinet_id w =
     (case withRetry_default (idexTransaction_findMany_cabinet cabinet_id) w of
        (Inl e, w1) \<Rightarrow> (Inl e, w1)
      | (Inr existingTransactions, w1) \<Rightarrow>
          let existingPairs = map (\<lambda>(e, c). pair_key (BigInt_toString e) c) existingTransactions;
              newTransactions =
                filter (\<lambda>t. \<not> has existingPairs (pair_key (Number_toString (t_id t)) cabinet_id))
                  transactions
          in
            if length newTransactions = 0 then (Inr [], w1)
            else promise_all
                   (map (\<lambda>transaction.
                           withRetry_call (idexTransaction_create (create_data transaction cabinet_id)))
                      newTransactions) w1)"

subsection \<open>processPendingIdexSyncOrders\<close>

text \<open>\<open>if (order.cabinetId)\<close> is false for \<open>null\<close> and for \<open>0\<close>.\<close>

definition determineCabinetsToSync ::
  "IdexSyncOrder \<Rightarrow> world \<Rightarrow> (error + IdexCabinet list) \<times> world" where
  "determineCabinetsToSync order w =
     (let all_cabinets =
            (case withRetry_default idexCabinet_findMany w of
               (Inl e, w1) \<Rightarrow> (Inl e, w1)
             | (Inr cabinets, w1) \<Rightarrow>
                 if length cabinets = 0 then (Inl NoCabinets, w1) else (Inr cabinets, w1))
      in
        case ord_cabinetId order of
          None \<Rightarrow> all_cabinets
        | Some cid \<Rightarrow>
            if cid = 0 then all_cabinets
            else
              (case withRetry_default (idexCabinet_findUnique cid) w of
                 (Inl e, w1) \<Rightarrow> (Inl e, w1)
               | (Inr None, w1) \<Rightarrow> (Inl (CabinetNotFound cid), w1)
               | (Inr (Some cabinet), w1) \<Rightarrow> (Inr [cabinet], w1)))"

text \<open>
  The body of the loop over the cabinets, with its \<open>try\<close> and \<open>catch\<close>: whatever is
  thrown becomes the entry of the cabinet.  \<open>cabinetIndex\<close> is
  \<open>cabinetsToSync.indexOf(cabinet)\<close>, the position of the cabinet, since the elements of
  the array are distinct objects.
\<close>

definition sync_cabinet ::
  "IdexSyncOrder \<Rightarrow> int \<Rightarrow> IdexCabinet \<Rightarrow> world \<Rightarrow> cabinet_result \<times> world" where
  "sync_cabinet order cabinetIndex cabinet w =
     (let pagesToFetch = determinePages (Some (ord_pages order)) cabinetIndex in
      case login \<lparr>cred_login = cab_login cabinet, cred_password = cab_password cabinet\<rparr> w of
        (Inl e, w1) \<Rightarrow> (CabinetFailed (cab_id cabinet) e, w1)
      | (Inr cookies, w1) \<Rightarrow>
          (case fetchTransactions cookies pagesToFetch w1 of (transactions, w2) \<Rightarrow>
           case saveTransactions transactions (cab_id cabinet) w2 of
             (Inl e, w3) \<Rightarrow> (CabinetFailed (cab_id cabinet) e, w3)
           | (Inr savedTransactions, w3) \<Rightarrow>
               (CabinetSynced (cab_id cabinet) (length transactions) (length savedTransactions),
                w3)))"

fun sync_cabinets ::
  "IdexSyncOrder \<Rightarrow> (int \<times> IdexCabinet) list \<Rightarrow> cabinet_result list \<Rightarrow> world
     \<Rightarrow> cabinet_result list \<times> world" where
  "sync_cabinets order [] processedResults w = (processedResults, w)"
| "sync_cabinets order ((cabinetIndex, cabinet) # rest) processedResults w =
     (case sync_cabinet order cabinetIndex cabinet w of (entry, w1) \<Rightarrow>
      sync_cabinets order rest (processedResults @ [entry]) w1)"

definition indexed :: "'a list \<Rightarrow> (int \<times> 'a) list" where
  "indexed xs = zip (map int [0 ..< length xs]) xs"

text \<open>
  The \<open>catch\<close> block of an order: the order is written as \<open>FAILED\<close>.  When this update
  throws too, the error leaves the loop over the orders.
\<close>

definition fail_order :: "IdexSyncOrder \<Rightarrow> error \<Rightarrow> world \<Rightarrow> (error + unit) \<times> world" where
  "fail_order order orderError w =
     (case withRetry_default
             (idexSyncOrder_update_by_id (ord_id order) FAILED (Some (OrderError orderError))) w of
        (Inl e, w1) \<Rightarrow> (Inl e, w1)
      | (Inr _, w1) \<Rightarrow> (Inr (), w1))"

text \<open>The body of the loop over the pending orders.\<close>

definition process_order :: "IdexSyncOrder \<Rightarrow> world \<Rightarrow> (error + unit) \<times> world" where
  "process_order order w =
     (case withRetry_default (idexSyncOrder_update_by_id (ord_id order) IN_PROGRESS None) w of
        (Inl e, w1) \<Rightarrow> fail_order order e w1
      | (Inr _, w1) \<Rightarrow>
          (case determineCabinetsToSync order w1 of
             (Inl e, w2) \<Rightarrow> fail_order order e w2
           | (Inr cabinetsToSync, w2) \<Rightarrow>
               (case sync_cabinets order (indexed cabinetsToSync) [] w2 of
                  (processedResults, w3) \<Rightarrow>
                    (case withRetry_default
                            (idexSyncOrder_update_by_id (ord_id order) COMPLETED
                               (Some (Results processedResults))) w3 of
                       (Inl e, w4) \<Rightarrow> fail_order order e w4
                     | (Inr _, w4) \<Rightarrow> (Inr (), w4)))))"

fun process_orders :: "IdexSyncOrder list \<Rightarrow> world \<Rightarrow> (error + unit) \<times> world" where
  "process_orders [] w = (Inr (), w)"
| "process_orders (order # rest) w =
     (case process_order order w of
        (Inl e, w1) \<Rightarrow> (Inl e, w1)
      | (Inr _, w1) \<Rightarrow> process_orders rest w1)"

text \<open>
  The outer \<open>try\<close> catches what leaves the loop and returns 0.  After the \<open>try\<close>
  statement the function evaluates \<open>pendingOrders.length\<close>, but \<open>pendingOrders\<close> is a
  \<open>const\<close> of the \<open>try\<close> block and no such name is in scope there: the evaluation
  throws a \<open>ReferenceError\<close>, which is the result of every run that did not return 0.
\<close>

definition processPendingIdexSyncOrders :: "world \<Rightarrow> (error + nat) \<times> world" where
  "processPendingIdexSyncOrders w =
     (case withRetry_default (idexSyncOrder_findMany PENDING) w of
        (Inl e, w1) \<Rightarrow> (Inr 0, w1)
      | (Inr pendingOrders, w1) \<Rightarrow>
          (case process_orders pendingOrders w1 of
             (Inl e, w2) \<Rightarrow> (Inr 0, w2)
           | (Inr _, w2) \<Rightarrow> (Inl ReferenceError, w2)))"

subsection \<open>Vocabulary of the statements\<close>

text \<open>
  The part of a store operation that \<open>db_call\<close> runs on the tables: it sends no request,
  sets no timer, leaves the oracle alone, and what it throws is never the error of an
  unreachable server.
\<close>

definition table_op :: "(world \<Rightarrow> (error + 'a) \<times> world) \<Rightarrow> bool" where
  "table_op run \<longleftrightarrow>
     (\<forall>w. db_log (snd (run w)) = db_log w \<and> timers (snd (run w)) = timers w \<and>
          db_fault (snd (run w)) = db_fault w \<and>
          (case fst (run w) of Inl e \<Rightarrow> \<not> unreachable e | Inr v \<Rightarrow> True))"

text \<open>
  The delays of \<open>k\<close> retries in a row that start with the delay \<open>d\<close>.
\<close>

fun backoff :: "real \<Rightarrow> nat \<Rightarrow> real option list" where
  "backoff d 0 = []"
| "backoff d (Suc k) = Some d # backoff (d * 1.5) k"

text \<open>
  \<open>retried req w res retries delays k\<close>: the run from \<open>w\<close> to the result \<open>res\<close> sent the
  request \<open>req\<close> \<open>k + 1\<close> times and nothing else, waited \<open>delays\<close> and nothing else, each
  of the first \<open>k\<close> attempts met an unreachable server, the result is the error of the
  last attempt when the store rejected it, and the run stopped before \<open>retries\<close> retries
  only because the last attempt did not meet an unreachable server.
\<close>

definition retried ::
  "db_request \<Rightarrow> world \<Rightarrow> (error + 'a) \<times> world \<Rightarrow> nat \<Rightarrow> real option list \<Rightarrow> nat \<Rightarrow> bool" where
  "retried req w res retries delays k \<longleftrightarrow>
     db_log (snd res) = db_log w @ replicate (Suc k) req \<and>
     timers (snd res) = timers w @ delays \<and>
     db_fault (snd res) = db_fault w \<and>
     (\<forall>j<k. \<exists>e. db_fault w req (length (db_log w) + j) = Some e \<and> unreachable e) \<and>
     (\<forall>e. db_fault w req (length (db_log w) + k) = Some e \<longrightarrow> fst res = Inl e) \<and>
     (k < retries \<longrightarrow> \<not> (\<exists>e. db_fault w req (length (db_log w) + k) = Some e \<and> unreachable e))"

text \<open>
  The answer is a 429, as a response or inside a rejection: the response, when it is.
\<close>

definition rate_limited :: "http_outcome \<Rightarrow> http_response option" where
  "rate_limited outcome =
     (case outcome of
        Resolved response \<Rightarrow> if resp_status response = 429 then Some response else None
      | Rejected None \<Rightarrow> None
      | Rejected (Some response) \<Rightarrow> if resp_status response = 429 then Some response else None)"




text \<open>
  The integers that a number holds exactly (\<open>Number.isSafeInteger\<close>), and a record
  whose numbers fit the columns of the table.
\<close>

definition isSafeInteger :: "int \<Rightarrow> bool" where
  "isSafeInteger n \<longleftrightarrow> - (2 ^ 53) < n \<and> n < 2 ^ 53"


text \<open>
  \<open>create_call row c\<close>: \<open>c\<close> is a call \<open>withRetry(() => create(row))\<close>, pending or settled
  with the row.  \<open>unserved rows calls\<close> are the rows whose calls are pending.
  \<open>lookup_frame cid w w'\<close>: the step from \<open>w\<close> to \<open>w'\<close> only sends lookups of the pairs of
  the cabinet \<open>cid\<close>.
\<close>

definition create_call :: "IdexTransaction \<Rightarrow> IdexTransaction call \<Rightarrow> bool" where
  "create_call row c \<longleftrightarrow>
     c = Settled row \<or> (\<exists>retries delay. c = Pending (idexTransaction_create row) retries delay)"

definition unserved :: "'b list \<Rightarrow> 'a call list \<Rightarrow> 'b list" where
  "unserved rows calls = map (\<lambda>i. rows ! i) (waiting calls)"




text \<open>
  A request on the order table.  \<open>aside w w'\<close>: the step from \<open>w\<close> to \<open>w'\<close> leaves the
  orders, the cabinets and the oracle of the store alone and sends no request on the
  order table.
\<close>

definition order_request :: "db_request \<Rightarrow> bool" where
  "order_request req =
     (case req of OrderFindMany st \<Rightarrow> True | OrderUpdate oid st proc \<Rightarrow> True | _ \<Rightarrow> False)"

definition aside :: "world \<Rightarrow> world \<Rightarrow> bool" where
  "aside w w' \<longleftrightarrow>
     idexSyncOrder w' = idexSyncOrder w \<and> idexCabinet w' = idexCabinet w \<and>
     db_fault w' = db_fault w \<and>
     (\<exists>ext. db_log w' = db_log w @ ext \<and> (\<forall>req\<in>set ext. \<not> order_request req))"

text \<open>
  The store rejects no request on the order table.  \<open>write_order\<close> is the world after an
  update of an order that the store has executed.
\<close>

definition accepts_orders :: "world \<Rightarrow> bool" where
  "accepts_orders w \<longleftrightarrow> (\<forall>req n. order_request req \<longrightarrow> db_fault w req n = None)"

definition write_order :: "int \<Rightarrow> IdexSyncOrderStatus \<Rightarrow> processed option \<Rightarrow> world \<Rightarrow> world" where
  "write_order oid st proc w =
     w\<lparr>db_log := db_log w @ [OrderUpdate oid st proc],
       idexSyncOrder := map (\<lambda>x. if ord_id x = oid then update_order st proc x else x) (idexSyncOrder w)\<rparr>"

text \<open>
  The statuses that the updates of a trace write to the order \<open>oid\<close>, oldest first.
\<close>

fun status_updates :: "int \<Rightarrow> db_request list \<Rightarrow> IdexSyncOrderStatus list" where
  "status_updates oid [] = []"
| "status_updates oid (OrderUpdate i st proc # reqs) =
     (if i = oid then st # status_updates oid reqs else status_updates oid reqs)"
| "status_updates oid (req # reqs) = status_updates oid reqs"

text \<open>
  The row of the order \<open>oid\<close> with a final status and result.  \<open>order_step picked ext\<close>
  relates a row before and after a run whose store requests are \<open>ext\<close>: a picked order
  ends \<open>COMPLETED\<close> or \<open>FAILED\<close> after exactly the two updates \<open>IN_PROGRESS\<close> and its final
  status; any other order is the same row and was sent no update.
\<close>

definition settle :: "int \<Rightarrow> IdexSyncOrderStatus \<Rightarrow> processed \<Rightarrow> IdexSyncOrder \<Rightarrow> IdexSyncOrder" where
  "settle oid t p x = (if ord_id x = oid then x\<lparr>ord_status := t, ord_processed := Some p\<rparr> else x)"

definition order_step ::
  "int set \<Rightarrow> db_request list \<Rightarrow> IdexSyncOrder \<Rightarrow> IdexSyncOrder \<Rightarrow> bool" where
  "order_step picked ext x x' \<longleftrightarrow>
     ord_id x' = ord_id x \<and>
     (if ord_id x \<in> picked
      then (ord_status x' = COMPLETED \<or> ord_status x' = FAILED) \<and>
           status_updates (ord_id x) ext = [IN_PROGRESS, ord_status x']
      else x' = x \<and> status_updates (ord_id x) ext = [])"






subsection \<open>Example worlds\<close>

text \<open>
  A world with empty tables, a store that rejects nothing and answers the first of the
  waiting calls first, and a network that is down.
\<close>

definition empty_world :: world where
  "empty_world =
     \<lparr>idexSyncOrder = [], idexCabinet = [], idexTransaction = [],
      db_fault = (\<lambda>req n. None), db_log = [],
      http = (\<lambda>req n. Rejected None), http_log = [], timers = [],
      schedule = (\<lambda>n. 0)\<rparr>"

text \<open>
  The store is unreachable for the first two requests.
\<close>

definition P1001 :: error where
  "P1001 = PrismaError ''P1001'' ''Can't reach database server at db:5432''"

definition flaky_world :: world where
  "flaky_world = empty_world\<lparr>db_fault := (\<lambda>req n. if n < 2 then Some P1001 else None)\<rparr>"

text \<open>
  Credentials and two answers of the login endpoint.
\<close>

definition user :: credentials where
  "user = \<lparr>cred_login = ''user'', cred_password = ''secret''\<rparr>"

definition too_many :: http_response where
  "too_many =
     \<lparr>resp_status = 429, resp_set_cookie = None, resp_retry_after = None, resp_data = NoBody\<rparr>"

definition session_ok :: http_response where
  "session_ok =
     \<lparr>resp_status = 200,
      resp_set_cookie = Some [''sid=abc; Path=/; HttpOnly'', ''rsid=def; Path=/''],
      resp_retry_after = None, resp_data = NoBody\<rparr>"

text \<open>
  The platform answers every request with a 429.
\<close>

definition blocked_world :: world where
  "blocked_world = empty_world\<lparr>http := (\<lambda>req n. Rejected (Some too_many))\<rparr>"

text \<open>
  The platform answers the first five requests with a 429 and then accepts the login.
\<close>

definition throttled_world :: world where
  "throttled_world =
     empty_world\<lparr>http := (\<lambda>req n. if n < 5 then Rejected (Some too_many) else Resolved session_ok)\<rparr>"

text \<open>
  The platform sets the cookie \<open>sid\<close> twice and \<open>rsid\<close> not at all.
\<close>

definition duplicate_sid :: http_response where
  "duplicate_sid =
     \<lparr>resp_status = 200,
      resp_set_cookie = Some [''sid=old; Path=/; Max-Age=0'', ''sid=new; Path=/''],
      resp_retry_after = None, resp_data = NoBody\<rparr>"

definition duplicate_sid_world :: world where
  "duplicate_sid_world = empty_world\<lparr>http := (\<lambda>req n. Resolved duplicate_sid)\<rparr>"

text \<open>
  A session, a feed record for every id, and a feed that answers every page request with
  status 200 and every login with a session.
\<close>

definition session :: "Cookie list" where
  "session = [make_cookie ''sid'' ''abc'', make_cookie ''rsid'' ''def'']"

definition payout :: "int \<Rightarrow> Transaction" where
  "payout n =
     \<lparr>t_id = n, t_payment_method_id = 1, t_wallet = ''wallet'', t_amount = ''{}'',
      t_total = ''{}'', t_status = 7, t_approved_at = None, t_expired_at = None,
      t_created_at = ''2025-01-01'', t_updated_at = ''2025-01-02'', t_extraData = []\<rparr>"

definition page_of :: "Transaction list \<Rightarrow> http_response" where
  "page_of ts =
     \<lparr>resp_status = 200, resp_set_cookie = None, resp_retry_after = None,
      resp_data = Body (Some ts) None\<rparr>"

definition feed :: "(int \<Rightarrow> Transaction list) \<Rightarrow> http_request \<Rightarrow> nat \<Rightarrow> http_outcome" where
  "feed pages req n =
     (case req of
        PayoutsGet hdr page \<Rightarrow> Resolved (page_of (pages page))
      | LoginPost l p \<Rightarrow> Resolved session_ok)"

text \<open>
  Page 1 has a record, page 2 is empty, every later page has a record.
\<close>

definition gap_world :: world where
  "gap_world =
     empty_world\<lparr>http := feed (\<lambda>page. if page = 1 then [payout 8] else if page = 2 then [] else [payout 9])\<rparr>"

text \<open>
  Every page is empty.
\<close>

definition blank_world :: world where
  "blank_world = empty_world\<lparr>http := feed (\<lambda>page. [])\<rparr>"

text \<open>
  Two cabinets; the record with the external id 7 is stored for cabinet 1; page 1 of the
  feed holds that record and nothing else, every later page is empty.
\<close>

definition cabinet_no :: "int \<Rightarrow> IdexCabinet" where
  "cabinet_no n = \<lparr>cab_id = n, cab_idexId = 100 + n, cab_login = ''user'', cab_password = ''secret''\<rparr>"

definition known_world :: world where
  "known_world =
     empty_world\<lparr>idexCabinet := [cabinet_no 1, cabinet_no 2],
                 idexTransaction := [create_data (payout 7) 1],
                 http := feed (\<lambda>page. if page = 1 then [payout 7] else [])\<rparr>"

text \<open>
  Three orders: order 1 is pending for all cabinets, order 2 is completed, order 3 is
  pending for a cabinet that does not exist.  One cabinet; its feed has one record.
\<close>

definition order_no :: "int \<Rightarrow> int option \<Rightarrow> IdexSyncOrderStatus \<Rightarrow> IdexSyncOrder" where
  "order_no n cid st =
     \<lparr>ord_id = n, ord_cabinetId = cid, ord_processed = None, ord_status = st, ord_pages = [1]\<rparr>"

definition office_world :: world where
  "office_world =
     empty_world\<lparr>idexSyncOrder :=
                   [order_no 1 None PENDING, order_no 2 None COMPLETED, order_no 3 (Some 99) PENDING],
                 idexCabinet := [cabinet_no 1],
                 http := feed (\<lambda>page. if page = 1 then [payout 8] else [])\<rparr>"

text \<open>
  The same world with a store that rejects every update to \<open>IN_PROGRESS\<close>.
\<close>

definition pool_timeout :: error where
  "pool_timeout =
     PrismaError ''P2024'' ''Timed out fetching a new connection from the connection pool''"

definition stalled_world :: world where
  "stalled_world =
     office_world\<lparr>db_fault :=
       (\<lambda>req n. case req of
                   OrderUpdate oid IN_PROGRESS proc \<Rightarrow> Some pool_timeout
                 | _ \<Rightarrow> None)\<rparr>"





section \<open>Properties\<close>

subsection \<open>determinePages\<close>

lemma js_index_nat: "0 \<le> i \<Longrightarrow> i < int (length xs) \<Longrightarrow> js_index xs i = Some (xs ! nat i)"
  by (simp add: js_index_def)

text \<open>
  C5.  For every list of page counts and every cabinet index \<open>i \<ge> 0\<close>, the page count
  of the cabinet is the entry at \<open>min i (L - 1)\<close> when the list has \<open>L \<ge> 1\<close> entries, and
  the default 10 when the list is empty or missing.
\<close>

theorem determinePages_clamped:
  assumes "0 \<le> i"
  shows "determinePages pages i =
     (case pages of
        None \<Rightarrow> Some 10
      | Some ps \<Rightarrow> if ps = [] then Some 10 else Some (ps ! min (nat i) (length ps - 1)))"
proof (cases pages)
  case None
  then show ?thesis by (simp add: determinePages_def DEFAULT_PAGES_TO_FETCH_def)
next
  case (Some ps)
  show ?thesis
  proof (cases "ps = []")
    case True
    with Some show ?thesis by (simp add: determinePages_def DEFAULT_PAGES_TO_FETCH_def)
  next
    case False
    then have len: "0 < length ps" by simp
    let ?j = "min i (int (length ps) - 1)"
    have j: "0 \<le> ?j" "?j < int (length ps)" using assms len by auto
    have nat_j: "nat ?j = min (nat i) (length ps - 1)"
      using assms len by (simp add: min_def) linarith
    have "js_index ps ?j = Some (ps ! min (nat i) (length ps - 1))"
      using js_index_nat[OF j] nat_j by simp
    moreover have "length ps = 1 \<Longrightarrow> js_index ps 0 = Some (ps ! min (nat i) (length ps - 1))"
      by (simp add: js_index_def)
    ultimately show ?thesis using Some False by (simp add: determinePages_def)
  qed
qed

theorem determinePages_clamped_witness:
  "(0::int) \<le> 5 \<and> determinePages (Some [3, 7]) 5 = Some 7 \<and>
   determinePages (Some [3, 7]) 0 = Some 3 \<and>
   determinePages (Some []) 5 = Some 10 \<and> determinePages None 5 = Some 10"
  using determinePages_clamped[of 5 "Some [3, 7]"] determinePages_clamped[of 0 "Some [3, 7]"]
    determinePages_clamped[of 5 "Some []"] determinePages_clamped[of 5 None]
  by simp

subsection \<open>withRetry\<close>

lemma db_call_fault:
  "db_fault w req (length (db_log w)) = Some e \<Longrightarrow>
   db_call req run w = (Inl e, w\<lparr>db_log := db_log w @ [req]\<rparr>)"
  by (simp add: db_call_def)

lemma db_call_ok:
  "db_fault w req (length (db_log w)) = None \<Longrightarrow>
   db_call req run w = run (w\<lparr>db_log := db_log w @ [req]\<rparr>)"
  by (simp add: db_call_def)

lemma db_call_frame:
  assumes "table_op run"
  shows "db_log (snd (db_call req run w)) = db_log w @ [req]"
    and "timers (snd (db_call req run w)) = timers w"
    and "db_fault (snd (db_call req run w)) = db_fault w"
  using assms by (auto simp: db_call_def table_op_def Let_def split: option.splits)

lemma db_call_unreachable:
  assumes "table_op run" and "fst (db_call req run w) = Inl e" and "unreachable e"
  shows "db_fault w req (length (db_log w)) = Some e"
proof (cases "db_fault w req (length (db_log w))")
  case None
  let ?w1 = "w\<lparr>db_log := db_log w @ [req]\<rparr>"
  from None assms(2) have "fst (run ?w1) = Inl e" by (simp add: db_call_ok)
  moreover from assms(1) have "case fst (run ?w1) of Inl e \<Rightarrow> \<not> unreachable e | Inr v \<Rightarrow> True"
    unfolding table_op_def by blast
  ultimately show ?thesis using assms(3) by simp
next
  case (Some e')
  with assms(2) show ?thesis by (simp add: db_call_fault)
qed

lemma withRetry_stop:
  "fst (fn w) = Inr v \<or> (fst (fn w) = Inl e \<and> \<not> (0 < retries \<and> unreachable e)) \<Longrightarrow>
   withRetry fn retries d w = fn w"
  by (cases "fn w") (auto simp: withRetry.simps[of fn retries] split: sum.splits)

lemma withRetry_again:
  "fst (fn w) = Inl e \<Longrightarrow> unreachable e \<Longrightarrow>
   withRetry fn (Suc n) d w = withRetry fn n (d * 1.5) (sleep (Some d) (snd (fn w)))"
  by (cases "fn w") (auto simp: withRetry.simps[of fn "Suc n"] split: sum.splits)

lemma withRetry_trace:
  assumes "table_op run"
  shows "\<exists>k\<le>retries.
           retried req w (withRetry (db_call req run) retries d w) retries (backoff d k) k"
proof (induction retries arbitrary: d w)
  case 0
  have "withRetry (db_call req run) 0 d w = db_call req run w"
    by (cases "fst (db_call req run w)") (auto intro: withRetry_stop)
  then show ?case using db_call_frame[OF assms, of req w]
    by (auto simp: retried_def db_call_fault)
next
  case (Suc n)
  let ?op = "db_call req run"
  show ?case
  proof (cases "\<exists>e. fst (?op w) = Inl e \<and> unreachable e")
    case False
    then have "withRetry ?op (Suc n) d w = ?op w"
      by (cases "fst (?op w)") (auto intro: withRetry_stop)
    moreover have "\<not> (\<exists>e. db_fault w req (length (db_log w)) = Some e \<and> unreachable e)"
      using False by (auto simp: db_call_fault)
    ultimately show ?thesis using db_call_frame[OF assms, of req w]
      by (intro exI[of _ 0]) (auto simp: retried_def db_call_fault)
  next
    case True
    then obtain e where e: "fst (?op w) = Inl e" "unreachable e" by blast
    have first: "db_fault w req (length (db_log w)) = Some e"
      using db_call_unreachable[OF assms e] .
    let ?w1 = "sleep (Some d) (snd (?op w))"
    have eq: "withRetry ?op (Suc n) d w = withRetry ?op n (d * 1.5) ?w1"
      using withRetry_again[where fn="?op" and w=w and e=e] e by simp
    from Suc.IH[where d="d * 1.5" and w="?w1"] obtain k where k: "k \<le> n"
      and r: "retried req ?w1 (withRetry ?op n (d * 1.5) ?w1) n (backoff (d * 1.5) k) k"
      by blast
    have w1: "db_log ?w1 = db_log w @ [req]" "timers ?w1 = timers w @ [Some d]"
      "db_fault ?w1 = db_fault w"
      using db_call_frame[OF assms, of req w] by (simp_all add: sleep_def)
    have "retried req w (withRetry ?op n (d * 1.5) ?w1) (Suc n) (backoff d (Suc k)) (Suc k)"
      unfolding retried_def
    proof (intro conjI allI impI)
      show "db_log (snd (withRetry ?op n (d * 1.5) ?w1)) = db_log w @ replicate (Suc (Suc k)) req"
        using r w1 by (simp add: retried_def replicate_app_Cons_same)
      show "timers (snd (withRetry ?op n (d * 1.5) ?w1)) = timers w @ backoff d (Suc k)"
        using r w1 by (simp add: retried_def)
      show "db_fault (snd (withRetry ?op n (d * 1.5) ?w1)) = db_fault w"
        using r w1 by (simp add: retried_def)
      show "\<exists>e. db_fault w req (length (db_log w) + j) = Some e \<and> unreachable e"
        if "j < Suc k" for j
      proof (cases j)
        case 0
        then show ?thesis using first e by simp
      next
        case (Suc j')
        with that have "j' < k" by simp
        with r w1 Suc show ?thesis by (simp add: retried_def)
      qed
      show "fst (withRetry ?op n (d * 1.5) ?w1) = Inl e'"
        if "db_fault w req (length (db_log w) + Suc k) = Some e'" for e'
        using r w1 that by (simp add: retried_def)
      show "\<not> (\<exists>e. db_fault w req (length (db_log w) + Suc k) = Some e \<and> unreachable e)"
        if "Suc k < Suc n"
        using r w1 that by (simp add: retried_def)
    qed
    then show ?thesis using k unfolding eq by (intro exI[of _ "Suc k"]) simp
  qed
qed

lemma backoff_default: "k \<le> 3 \<Longrightarrow> backoff 2000 k = take k [Some 2000, Some 3000, Some 4500]"
proof -
  assume "k \<le> 3"
  then consider "k = 0" | "k = 1" | "k = 2" | "k = 3" by linarith
  then show ?thesis by cases (simp_all add: numeral_2_eq_2 numeral_3_eq_3)
qed

lemma unreachable_P1001: "unreachable P1001"
  by (simp add: unreachable_def P1001_def)

text \<open>Each of the seven store operations of the code is a \<open>db_call\<close> of a \<open>table_op\<close>.\<close>

lemma store_operations:
  "\<exists>run. idexSyncOrder_findMany st = db_call (OrderFindMany st) run \<and> table_op run"
  "\<exists>run. idexSyncOrder_update_by_id oid st proc = db_call (OrderUpdate oid st proc) run \<and> table_op run"
  "\<exists>run. idexCabinet_findUnique cid = db_call (CabinetFindUnique cid) run \<and> table_op run"
  "\<exists>run. idexCabinet_findMany = db_call CabinetFindMany run \<and> table_op run"
  "\<exists>run. idexTransaction_findMany_in ids = db_call (TransactionFindManyIn ids) run \<and> table_op run"
  "\<exists>run. idexTransaction_findMany_cabinet cid = db_call (TransactionFindManyCabinet cid) run \<and>
         table_op run"
  "\<exists>run. idexTransaction_create row = db_call (TransactionCreate row) run \<and> table_op run"
  unfolding idexSyncOrder_findMany_def idexSyncOrder_update_by_id_def idexCabinet_findUnique_def
    idexCabinet_findMany_def idexTransaction_findMany_in_def
    idexTransaction_findMany_cabinet_def idexTransaction_create_def
  by (rule exI, rule conjI, rule refl,
      simp add: table_op_def unreachable_def split: option.splits)+

text \<open>
  C8.  A store operation under \<open>withRetry\<close> with its defaults is retried \<open>k \<le> 3\<close> times:
  the request is sent \<open>k + 1\<close> times, the delays are the first \<open>k\<close> of 2000, 3000 and
  4500 ms (start 2000, factor 1.5), every attempt that was followed by a retry met an
  unreachable server, and the error surfaces after the third retry or as soon as an
  attempt does not meet an unreachable server.  A failure that is not the unreachable
  condition is the result of the first attempt: nothing is sent again, no timer set.
\<close>

theorem withRetry_backoff:
  assumes "table_op run"
  shows "(\<exists>k\<le>3. retried req w (withRetry_default (db_call req run) w) 3
                   (take k [Some 2000, Some 3000, Some 4500]) k) \<and>
         (\<forall>e. fst (db_call req run w) = Inl e \<and> \<not> unreachable e \<longrightarrow>
              withRetry_default (db_call req run) w = db_call req run w)"
proof
  from withRetry_trace[OF assms, where retries=3 and req=req and w=w and d=2000]
  obtain k where "k \<le> 3"
    "retried req w (withRetry (db_call req run) 3 2000 w) 3 (backoff 2000 k) k" by blast
  then show "\<exists>k\<le>3. retried req w (withRetry_default (db_call req run) w) 3
                   (take k [Some 2000, Some 3000, Some 4500]) k"
    by (auto simp: withRetry_default_def backoff_default)
  show "\<forall>e. fst (db_call req run w) = Inl e \<and> \<not> unreachable e \<longrightarrow>
              withRetry_default (db_call req run) w = db_call req run w"
    by (auto simp: withRetry_default_def intro: withRetry_stop)
qed

theorem withRetry_backoff_witness:
  "table_op (\<lambda>w. (Inr (idexCabinet w), w)) \<and>
   timers (snd (withRetry_default idexCabinet_findMany flaky_world)) = [Some 2000, Some 3000] \<and>
   db_log (snd (withRetry_default idexCabinet_findMany flaky_world)) =
     [CabinetFindMany, CabinetFindMany, CabinetFindMany]"
proof -
  let ?run = "\<lambda>w. (Inr (idexCabinet w), w)"
  let ?res = "withRetry_default (db_call CabinetFindMany ?run) flaky_world"
  have t: "table_op ?run" by (simp add: table_op_def)
  from withRetry_backoff[OF t, of CabinetFindMany flaky_world]
  obtain k where k: "k \<le> 3"
    and r: "retried CabinetFindMany flaky_world ?res 3 (take k [Some 2000, Some 3000, Some 4500]) k"
    by blast
  have f: "db_fault flaky_world req n = (if n < 2 then Some P1001 else None)" for req n
    by (simp add: flaky_world_def empty_world_def)
  have l: "db_log flaky_world = []" "timers flaky_world = []"
    by (simp_all add: flaky_world_def empty_world_def)
  have "\<not> k < 2"
    using r unreachable_P1001 unfolding retried_def f l by auto
  moreover have "\<not> 2 < k"
    using r unfolding retried_def f l by (auto dest: spec[of _ 2])
  ultimately have "k = 2" by simp
  with r l show ?thesis using t
    by (simp add: retried_def idexCabinet_findMany_def numeral_2_eq_2 numeral_3_eq_3)
qed

subsection \<open>login\<close>

text \<open>One turn of the loop, by what the platform answers.\<close>

lemma login_loop_limited_again:
  assumes "rate_limited (http w (LoginPost (cred_login creds) (cred_password creds))
                           (length (http_log w))) = Some response"
    and "retryCount < MAX_RETRIES"
  shows "login_loop creds retryCount delay w =
           login_loop creds (retryCount + 1) (delay * 2)
             (sleep (retry_delay response delay)
                (w\<lparr>http_log := http_log w @ [LoginPost (cred_login creds) (cred_password creds)]\<rparr>))"
  using assms
  by (subst login_loop.simps)
     (auto simp: http_call_def rate_limited_def split: http_outcome.splits option.splits if_splits)

lemma login_loop_limited_stop:
  assumes "rate_limited (http w (LoginPost (cred_login creds) (cred_password creds))
                           (length (http_log w))) = Some response"
    and "\<not> retryCount < MAX_RETRIES"
  shows "login_loop creds retryCount delay w =
           (Inl TooManyRequests,
            w\<lparr>http_log := http_log w @ [LoginPost (cred_login creds) (cred_password creds)]\<rparr>)"
  using assms
  by (subst login_loop.simps)
     (auto simp: http_call_def rate_limited_def split: http_outcome.splits option.splits if_splits)

lemma login_loop_not_limited:
  assumes "rate_limited (http w (LoginPost (cred_login creds) (cred_password creds))
                           (length (http_log w))) = None"
  shows "snd (login_loop creds retryCount delay w) =
           w\<lparr>http_log := http_log w @ [LoginPost (cred_login creds) (cred_password creds)]\<rparr>"
  using assms
  by (subst login_loop.simps)
     (auto simp: http_call_def rate_limited_def Let_def
           split: http_outcome.splits option.splits if_splits)

lemma login_loop_calls:
  "retryCount \<le> MAX_RETRIES \<Longrightarrow>
   \<exists>k. 1 \<le> k \<and> k \<le> MAX_RETRIES + 1 - retryCount \<and>
       http_log (snd (login_loop creds retryCount delay w)) =
         http_log w @ replicate k (LoginPost (cred_login creds) (cred_password creds))"
proof (induction n \<equiv> "MAX_RETRIES - retryCount" arbitrary: retryCount delay w)
  case 0
  let ?req = "LoginPost (cred_login creds) (cred_password creds)"
  from 0 have stop: "\<not> retryCount < MAX_RETRIES" by simp
  show ?case
  proof (cases "rate_limited (http w ?req (length (http_log w)))")
    case None
    then show ?thesis
      using login_loop_not_limited[OF None] "0.prems" by (intro exI[of _ 1]) simp
  next
    case (Some response)
    then show ?thesis
      using login_loop_limited_stop[OF Some stop] "0.prems" by (intro exI[of _ 1]) simp
  qed
next
  case (Suc n)
  let ?req = "LoginPost (cred_login creds) (cred_password creds)"
  from Suc.hyps(2) have again: "retryCount < MAX_RETRIES" by simp
  show ?case
  proof (cases "rate_limited (http w ?req (length (http_log w)))")
    case None
    then show ?thesis
      using login_loop_not_limited[OF None] Suc.prems by (intro exI[of _ 1]) simp
  next
    case (Some response)
    let ?w1 = "sleep (retry_delay response delay) (w\<lparr>http_log := http_log w @ [?req]\<rparr>)"
    have n: "n = MAX_RETRIES - (retryCount + 1)" "retryCount + 1 \<le> MAX_RETRIES"
      using Suc.hyps(2) by simp_all
    from Suc.hyps(1)[OF n, of "delay * 2" ?w1] obtain k where k: "1 \<le> k"
      "k \<le> MAX_RETRIES + 1 - (retryCount + 1)"
      "http_log (snd (login_loop creds (retryCount + 1) (delay * 2) ?w1)) =
         http_log ?w1 @ replicate k ?req" by blast
    show ?thesis
      using k again unfolding login_loop_limited_again[OF Some again]
      by (intro exI[of _ "Suc k"]) (simp add: sleep_def replicate_app_Cons_same)
  qed
qed

lemma login_loop_exhausted:
  "retryCount \<le> MAX_RETRIES \<Longrightarrow>
   (\<forall>j<MAX_RETRIES + 1 - retryCount.
      rate_limited (http w (LoginPost (cred_login creds) (cred_password creds))
                      (length (http_log w) + j)) \<noteq> None) \<Longrightarrow>
   fst (login_loop creds retryCount delay w) = Inl TooManyRequests \<and>
   http_log (snd (login_loop creds retryCount delay w)) =
     http_log w @ replicate (MAX_RETRIES + 1 - retryCount)
                    (LoginPost (cred_login creds) (cred_password creds)) \<and>
   length (timers (snd (login_loop creds retryCount delay w))) =
     length (timers w) + (MAX_RETRIES - retryCount)"
proof (induction n \<equiv> "MAX_RETRIES - retryCount" arbitrary: retryCount delay w)
  case 0
  let ?req = "LoginPost (cred_login creds) (cred_password creds)"
  from 0 have stop: "\<not> retryCount < MAX_RETRIES" and eq: "MAX_RETRIES + 1 - retryCount = 1"
    by simp_all
  from 0(3) eq obtain response
    where r: "rate_limited (http w ?req (length (http_log w))) = Some response"
    by (metis add.right_neutral less_one not_Some_eq)
  show ?case using login_loop_limited_stop[OF r stop] eq 0(1) by simp
next
  case (Suc n)
  let ?req = "LoginPost (cred_login creds) (cred_password creds)"
  from Suc.hyps(2) have again: "retryCount < MAX_RETRIES" by simp
  from Suc.prems(2)[rule_format, of 0] again
  obtain response where r: "rate_limited (http w ?req (length (http_log w))) = Some response"
    by auto
  let ?w1 = "sleep (retry_delay response delay) (w\<lparr>http_log := http_log w @ [?req]\<rparr>)"
  have n: "n = MAX_RETRIES - (retryCount + 1)" "retryCount + 1 \<le> MAX_RETRIES"
    using Suc.hyps(2) by simp_all
  have rest: "\<forall>j<MAX_RETRIES + 1 - (retryCount + 1).
                rate_limited (http ?w1 ?req (length (http_log ?w1) + j)) \<noteq> None"
  proof (intro allI impI)
    fix j assume "j < MAX_RETRIES + 1 - (retryCount + 1)"
    then have "Suc j < MAX_RETRIES + 1 - retryCount" by simp
    from Suc.prems(2)[rule_format, OF this]
    show "rate_limited (http ?w1 ?req (length (http_log ?w1) + j)) \<noteq> None"
      by (simp add: sleep_def)
  qed
  from Suc.hyps(1)[OF n rest, of "delay * 2"]
  show ?case
    using again unfolding login_loop_limited_again[OF r again]
    by (simp add: sleep_def replicate_app_Cons_same Suc_diff_le)
qed

text \<open>
  C1, as the code has it.  \<open>login\<close> sends its request at least once and at most six
  times (one attempt and \<open>MAX_RETRIES = 5\<close> retries) and nothing else.  When the
  platform answers six requests in a row with a 429, \<open>login\<close> fails with the rate-limit
  error after exactly six requests and five delays: the seventh request is never sent.
\<close>

theorem login_rate_limit:
  "(\<exists>k. 1 \<le> k \<and> k \<le> 6 \<and>
        http_log (snd (login creds w)) =
          http_log w @ replicate k (LoginPost (cred_login creds) (cred_password creds))) \<and>
   ((\<forall>j<6. rate_limited (http w (LoginPost (cred_login creds) (cred_password creds))
                           (length (http_log w) + j)) \<noteq> None) \<longrightarrow>
      fst (login creds w) = Inl TooManyRequests \<and>
      http_log (snd (login creds w)) =
        http_log w @ replicate 6 (LoginPost (cred_login creds) (cred_password creds)) \<and>
      length (timers (snd (login creds w))) = length (timers w) + 5)"
  using login_loop_calls[of 0 creds BASE_DELAY w] login_loop_exhausted[of 0 w creds BASE_DELAY]
  by (simp add: login_def MAX_RETRIES_def)

theorem login_rate_limit_witness:
  "fst (login user blocked_world) = Inl TooManyRequests \<and>
   http_log (snd (login user blocked_world)) = replicate 6 (LoginPost ''user'' ''secret'') \<and>
   length (timers (snd (login user blocked_world))) = 5"
  using login_rate_limit[of user blocked_world]
  by (simp add: blocked_world_def empty_world_def user_def rate_limited_def too_many_def)

text \<open>
  C1, as the claim has it, fails: after five answers of 429 in a row the sixth request
  is sent, and when the platform accepts it the login succeeds.
\<close>

theorem login_sixth_call:
  "map (http throttled_world (LoginPost ''user'' ''secret'')) [0, 1, 2, 3, 4] =
     replicate 5 (Rejected (Some too_many)) \<and>
   resp_status too_many = 429 \<and>
   http_log (snd (login user throttled_world)) = replicate 6 (LoginPost ''user'' ''secret'') \<and>
   fst (login user throttled_world) =
     Inr [make_cookie ''sid'' ''abc'', make_cookie ''rsid'' ''def'']"
  by (simp add: login_def login_loop.simps http_call_def throttled_world_def empty_world_def
        user_def too_many_def session_ok_def sleep_def MAX_RETRIES_def BASE_DELAY_def
        retry_delay_def numeral_eq_Suc)

text \<open>
  What \<open>login\<close> makes of an answer with status 200: it counts the \<open>Set-Cookie\<close> lines
  whose name is \<open>sid\<close> or \<open>rsid\<close> and returns all of them when there are two or more.
\<close>

lemma login_status_200:
  assumes "http w (LoginPost (cred_login creds) (cred_password creds)) (length (http_log w)) =
             Resolved response"
    and "resp_status response = 200"
  shows "fst (login creds w) =
           (let cookies = (case resp_set_cookie response of None \<Rightarrow> [] | Some cs \<Rightarrow> cs) in
            if cookies = [] then Inl NoCookies
            else if length (session_cookies cookies) < 2 then Inl MissingCookies
            else Inr (session_cookies cookies))"
  using assms unfolding login_def
  by (subst login_loop.simps) (simp add: http_call_def Let_def)

text \<open>
  C6 at the answer that sets \<open>sid\<close> twice: only one of the two required names is
  present, and \<open>login\<close> returns the two \<open>sid\<close> cookies instead of failing.
\<close>

theorem login_duplicate_sid:
  "fst (login user duplicate_sid_world) =
     Inr [make_cookie ''sid'' ''old'', make_cookie ''sid'' ''new'']"
  by (simp add: login_def login_loop.simps http_call_def duplicate_sid_world_def empty_world_def
        user_def duplicate_sid_def)

subsection \<open>fetchTransactionsPage\<close>

lemma page_loop_limited_again:
  assumes "rate_limited (http w (PayoutsGet hdr page) (length (http_log w))) = Some response"
    and "retryCount < MAX_RETRIES"
  shows "page_loop hdr page retryCount delay w =
           page_loop hdr page (retryCount + 1) (delay * 2)
             (sleep (retry_delay response delay)
                (w\<lparr>http_log := http_log w @ [PayoutsGet hdr page]\<rparr>))"
  using assms
  by (subst page_loop.simps)
     (auto simp: http_call_def rate_limited_def split: http_outcome.splits option.splits if_splits)

lemma page_loop_limited_stop:
  assumes "rate_limited (http w (PayoutsGet hdr page) (length (http_log w))) = Some response"
    and "\<not> retryCount < MAX_RETRIES"
  shows "page_loop hdr page retryCount delay w =
           (Inl TooManyRequests, w\<lparr>http_log := http_log w @ [PayoutsGet hdr page]\<rparr>)"
  using assms
  by (subst page_loop.simps)
     (auto simp: http_call_def rate_limited_def split: http_outcome.splits option.splits if_splits)

lemma page_loop_not_limited:
  assumes "rate_limited (http w (PayoutsGet hdr page) (length (http_log w))) = None"
  shows "snd (page_loop hdr page retryCount delay w) =
           w\<lparr>http_log := http_log w @ [PayoutsGet hdr page]\<rparr>"
  using assms
  by (subst page_loop.simps)
     (auto simp: http_call_def rate_limited_def Let_def
           split: http_outcome.splits option.splits if_splits)

text \<open>
  A page request changes the world in two places only: it sends its request between one
  and six times and it sets timers.
\<close>

lemma page_loop_world:
  "retryCount \<le> MAX_RETRIES \<Longrightarrow>
   \<exists>k ds. 1 \<le> k \<and> k \<le> MAX_RETRIES + 1 - retryCount \<and>
       snd (page_loop hdr page retryCount delay w) =
         w\<lparr>http_log := http_log w @ replicate k (PayoutsGet hdr page), timers := timers w @ ds\<rparr>"
proof (induction n \<equiv> "MAX_RETRIES - retryCount" arbitrary: retryCount delay w)
  case 0
  let ?req = "PayoutsGet hdr page"
  from 0 have stop: "\<not> retryCount < MAX_RETRIES" by simp
  show ?case
  proof (cases "rate_limited (http w ?req (length (http_log w)))")
    case None
    then show ?thesis
      using page_loop_not_limited[OF None] "0.prems" by (intro exI[of _ 1] exI[of _ "[]"]) simp
  next
    case (Some response)
    then show ?thesis
      using page_loop_limited_stop[OF Some stop] "0.prems" by (intro exI[of _ 1] exI[of _ "[]"]) simp
  qed
next
  case (Suc n)
  let ?req = "PayoutsGet hdr page"
  from Suc.hyps(2) have again: "retryCount < MAX_RETRIES" by simp
  show ?case
  proof (cases "rate_limited (http w ?req (length (http_log w)))")
    case None
    then show ?thesis
      using page_loop_not_limited[OF None] Suc.prems by (intro exI[of _ 1] exI[of _ "[]"]) simp
  next
    case (Some response)
    let ?w1 = "sleep (retry_delay response delay) (w\<lparr>http_log := http_log w @ [?req]\<rparr>)"
    have n: "n = MAX_RETRIES - (retryCount + 1)" "retryCount + 1 \<le> MAX_RETRIES"
      using Suc.hyps(2) by simp_all
    from Suc.hyps(1)[OF n, of "delay * 2" ?w1] obtain k ds where k: "1 \<le> k"
      "k \<le> MAX_RETRIES + 1 - (retryCount + 1)"
      "snd (page_loop hdr page (retryCount + 1) (delay * 2) ?w1) =
         ?w1\<lparr>http_log := http_log ?w1 @ replicate k ?req, timers := timers ?w1 @ ds\<rparr>" by blast
    show ?thesis
      using k again unfolding page_loop_limited_again[OF Some again]
      by (intro exI[of _ "Suc k"] exI[of _ "retry_delay response delay # ds"])
         (simp add: sleep_def replicate_app_Cons_same)
  qed
qed

lemma fetchTransactionsPage_world:
  "\<exists>k ds. 1 \<le> k \<and> k \<le> 6 \<and>
       snd (fetchTransactionsPage cookies page w) =
         w\<lparr>http_log := http_log w @ replicate k (PayoutsGet (cookie_header cookies) page),
           timers := timers w @ ds\<rparr>"
  using page_loop_world[of 0 "cookie_header cookies" page BASE_DELAY w]
  by (simp add: fetchTransactionsPage_def MAX_RETRIES_def)

subsection \<open>fetchTransactions\<close>

text \<open>What every attempt and every delay preserve, \<open>withRetry\<close> preserves.\<close>

lemma withRetry_invariant:
  assumes "\<And>w. P w \<Longrightarrow> P (snd (fn w))" and "\<And>ms w. P w \<Longrightarrow> P (sleep ms w)" and "P w"
  shows "P (snd (withRetry fn retries d w))"
  using assms(3)
proof (induction retries arbitrary: d w)
  case 0
  have "withRetry fn 0 d w = fn w"
    by (cases "fst (fn w)") (auto intro: withRetry_stop)
  with 0 assms(1) show ?case by simp
next
  case (Suc n)
  show ?case
  proof (cases "\<exists>e. fst (fn w) = Inl e \<and> unreachable e")
    case True
    then obtain e where e: "fst (fn w) = Inl e" "unreachable e" by blast
    then have "withRetry fn (Suc n) d w = withRetry fn n (d * 1.5) (sleep (Some d) (snd (fn w)))"
      using withRetry_again[where fn=fn and w=w and e=e] by simp
    moreover have "P (sleep (Some d) (snd (fn w)))" using Suc.prems assms(1,2) by simp
    ultimately show ?thesis using Suc.IH by simp
  next
    case False
    then have "withRetry fn (Suc n) d w = fn w"
      by (cases "fst (fn w)") (auto intro: withRetry_stop)
    with Suc.prems assms(1) show ?thesis by simp
  qed
qed

lemma findMany_in_http_log:
  "http_log (snd (withRetry_default (idexTransaction_findMany_in ids) w)) = http_log w"
  unfolding withRetry_default_def
  by (rule withRetry_invariant[where P="\<lambda>w'. http_log w' = http_log w"])
     (auto simp: idexTransaction_findMany_in_def db_call_def Let_def sleep_def split: option.splits)

text \<open>
  The requests of the loop: the body for a page sends the request of that page, between
  one and six times; the loop from \<open>page\<close> on starts with the request for \<open>page\<close> and
  sends requests for the pages from \<open>page\<close> to \<open>pages\<close> only.
\<close>

lemma fetch_page_requests:
  "\<exists>k. 1 \<le> k \<and> k \<le> 6 \<and>
       http_log (snd (fetch_page cookies page acc w)) =
         http_log w @ replicate k (PayoutsGet (cookie_header cookies) page)"
proof -
  let ?w0 = "if page > 1 then sleep (Some (real_of_int BASE_DELAY)) w else w"
  obtain k ds where k: "1 \<le> k" "k \<le> 6"
    "snd (fetchTransactionsPage cookies page ?w0) =
       ?w0\<lparr>http_log := http_log ?w0 @ replicate k (PayoutsGet (cookie_header cookies) page),
           timers := timers ?w0 @ ds\<rparr>"
    using fetchTransactionsPage_world[of cookies page ?w0] by blast
  have l0: "http_log ?w0 = http_log w" by (simp add: sleep_def)
  obtain r w1 where p: "fetchTransactionsPage cookies page ?w0 = (r, w1)" by force
  with k l0 have w1: "http_log w1 = http_log w @ replicate k (PayoutsGet (cookie_header cookies) page)"
    by simp
  have "http_log w2 = http_log w1"
    if "withRetry_default (idexTransaction_findMany_in ids) w1 = (q, w2)" for ids q w2
    using findMany_in_http_log[of ids w1] that by simp
  then have "http_log (snd (fetch_page cookies page acc w)) = http_log w1"
    using p by (auto simp: fetch_page_def Let_def split: sum.splits prod.splits)
  with w1 k show ?thesis by auto
qed

lemma fetch_loop_done: "\<not> page \<le> pages \<Longrightarrow> fetch_loop cookies pages page acc w = (acc, w)"
  by (subst fetch_loop.simps) simp

lemma fetch_loop_next:
  "page \<le> pages \<Longrightarrow> fetch_page cookies page acc w = ((False, acc'), w1) \<Longrightarrow>
   fetch_loop cookies pages page acc w = fetch_loop cookies pages (page + 1) acc' w1"
  by (subst fetch_loop.simps) simp

lemma fetch_loop_break:
  "page \<le> pages \<Longrightarrow> fetch_page cookies page acc w = ((True, acc'), w1) \<Longrightarrow>
   fetch_loop cookies pages page acc w = (acc', w1)"
  by (subst fetch_loop.simps) simp

lemma fetch_loop_requests:
  "\<exists>ext. http_log (snd (fetch_loop cookies pages page acc w)) = http_log w @ ext \<and>
         (\<forall>r\<in>set ext. \<exists>p. r = PayoutsGet (cookie_header cookies) p \<and> page \<le> p \<and> p \<le> pages) \<and>
         (page \<le> pages \<longrightarrow> ext \<noteq> [] \<and> hd ext = PayoutsGet (cookie_header cookies) page)"
proof (induction n \<equiv> "nat (pages + 1 - page)" arbitrary: page acc w)
  case 0
  then have "\<not> page \<le> pages" by simp
  then show ?case by (simp add: fetch_loop_done)
next
  case (Suc n)
  then have le: "page \<le> pages" by simp
  obtain stop acc' w1 where b: "fetch_page cookies page acc w = ((stop, acc'), w1)"
    by (metis surj_pair)
  obtain k where k: "1 \<le> k"
    "http_log w1 = http_log w @ replicate k (PayoutsGet (cookie_header cookies) page)"
    using fetch_page_requests[of cookies page acc w] b by auto
  then obtain k' where k': "k = Suc k'" by (cases k) auto
  show ?case
  proof (cases stop)
    case True
    with b le have "fetch_loop cookies pages page acc w = (acc', w1)"
      by (simp add: fetch_loop_break)
    with k k' le show ?thesis by auto
  next
    case False
    with b le have eq: "fetch_loop cookies pages page acc w = fetch_loop cookies pages (page + 1) acc' w1"
      by (simp add: fetch_loop_next)
    have n: "n = nat (pages + 1 - (page + 1))" using Suc.hyps(2) by simp
    from Suc.hyps(1)[OF n, of acc' w1] obtain ext where ext:
      "http_log (snd (fetch_loop cookies pages (page + 1) acc' w1)) = http_log w1 @ ext"
      "\<forall>r\<in>set ext. \<exists>p. r = PayoutsGet (cookie_header cookies) p \<and> page + 1 \<le> p \<and> p \<le> pages"
      by blast
    show ?thesis
      unfolding eq
      using ext k k' le
      by (intro exI[of _ "replicate k (PayoutsGet (cookie_header cookies) page) @ ext"])
         (auto simp: )
  qed
qed

lemma fetchTransactionsPage_db_log:
  "db_log (snd (fetchTransactionsPage cookies page w)) = db_log w"
  using fetchTransactionsPage_world[of cookies page w] by auto

text \<open>The equations that evaluate a fetch in an example world.\<close>

lemmas eval_defs = fetchTransactions_def fetch_loop.simps fetch_page_def fetchTransactionsPage_def
  page_loop.simps http_call_def withRetry_default_def withRetry.simps db_call_def
  idexTransaction_findMany_in_def sleep_def page_data_def has_def
  feed_def page_of_def empty_world_def DEFAULT_PAGES_TO_FETCH_def BASE_DELAY_def

lemma cookie_header_session: "cookie_header session = ''sid=abc; rsid=def''"
  by (simp add: cookie_header_def session_def make_cookie_def)

text \<open>
  C10.  When the request for a page returns no record at all, the body of the loop makes
  no store query, appends nothing and does not break; the loop goes on with the next
  page index; and the loop never requests a page beyond \<open>pages\<close>.
\<close>

theorem fetch_empty_page:
  assumes "fetchTransactionsPage cookies page
             (if 1 < page then sleep (Some (real_of_int BASE_DELAY)) w else w) = (Inr [], w1)"
  shows "fetch_page cookies page acc w = ((False, acc), w1) \<and>
         db_log w1 = db_log w \<and>
         (page \<le> pages \<longrightarrow>
            fetch_loop cookies pages page acc w = fetch_loop cookies pages (page + 1) acc w1) \<and>
         (\<exists>ext. http_log (snd (fetch_loop cookies pages page acc w)) = http_log w @ ext \<and>
                (\<forall>r\<in>set ext. \<exists>p. r = PayoutsGet (cookie_header cookies) p \<and> page \<le> p \<and> p \<le> pages))"
proof (intro conjI impI)
  show b: "fetch_page cookies page acc w = ((False, acc), w1)"
    using assms by (simp add: fetch_page_def)
  show "db_log w1 = db_log w"
    using fetchTransactionsPage_db_log[of cookies page
            "if 1 < page then sleep (Some (real_of_int BASE_DELAY)) w else w"] assms
    by (simp add: sleep_def split: if_splits)
  show "fetch_loop cookies pages page acc w = fetch_loop cookies pages (page + 1) acc w1"
    if "page \<le> pages"
    using that b by (rule fetch_loop_next)
  show "\<exists>ext. http_log (snd (fetch_loop cookies pages page acc w)) = http_log w @ ext \<and>
                (\<forall>r\<in>set ext. \<exists>p. r = PayoutsGet (cookie_header cookies) p \<and> page \<le> p \<and> p \<le> pages)"
    using fetch_loop_requests[of cookies pages page acc w] by blast
qed

theorem fetch_empty_page_witness:
  "fetchTransactionsPage session 1 blank_world =
     (Inr [], blank_world\<lparr>http_log := [PayoutsGet ''sid=abc; rsid=def'' 1]\<rparr>) \<and>
   fetch_page session 1 [] blank_world =
     ((False, []), blank_world\<lparr>http_log := [PayoutsGet ''sid=abc; rsid=def'' 1]\<rparr>) \<and>
   db_log (snd (fetchTransactions session (Some 3) blank_world)) = [] \<and>
   http_log (snd (fetchTransactions session (Some 3) blank_world)) =
     [PayoutsGet ''sid=abc; rsid=def'' 1, PayoutsGet ''sid=abc; rsid=def'' 2,
      PayoutsGet ''sid=abc; rsid=def'' 3]"
proof -
  have p: "fetchTransactionsPage session 1
             (if 1 < (1::int) then sleep (Some (real_of_int BASE_DELAY)) blank_world else blank_world) =
           (Inr [], blank_world\<lparr>http_log := [PayoutsGet ''sid=abc; rsid=def'' 1]\<rparr>)"
    by (simp add: eval_defs blank_world_def cookie_header_session)
  from fetch_empty_page[OF p, of "[]" 3] p
  show ?thesis
    by (simp add: eval_defs blank_world_def cookie_header_session Let_def)
qed

text \<open>
  C2, as the code has it.  A page below \<open>pages\<close> that comes back with no record at all,
  or whose request fails, does not stop the fetch: the next page is requested.  (A page
  with records that are all stored is the subject of C9.)
\<close>

theorem fetch_continues:
  assumes "page < pages"
    and "fst (fetchTransactionsPage cookies page
               (if 1 < page then sleep (Some (real_of_int BASE_DELAY)) w else w)) = Inr [] \<or>
         (\<exists>e. fst (fetchTransactionsPage cookies page
                     (if 1 < page then sleep (Some (real_of_int BASE_DELAY)) w else w)) = Inl e)"
  shows "PayoutsGet (cookie_header cookies) (page + 1) \<in>
           set (drop (length (http_log w)) (http_log (snd (fetch_loop cookies pages page acc w))))"
proof -
  let ?w0 = "if 1 < page then sleep (Some (real_of_int BASE_DELAY)) w else w"
  obtain r w1 where p: "fetchTransactionsPage cookies page ?w0 = (r, w1)" by force
  with assms(2) have b: "fetch_page cookies page acc w = ((False, acc), w1)"
    by (auto simp: fetch_page_def)
  with assms(1) have eq: "fetch_loop cookies pages page acc w = fetch_loop cookies pages (page + 1) acc w1"
    by (simp add: fetch_loop_next)
  obtain k where k: "http_log w1 = http_log w @ replicate k (PayoutsGet (cookie_header cookies) page)"
    using fetch_page_requests[of cookies page acc w] b by auto
  obtain ext where ext: "http_log (snd (fetch_loop cookies pages (page + 1) acc w1)) = http_log w1 @ ext"
    "ext \<noteq> []" "hd ext = PayoutsGet (cookie_header cookies) (page + 1)"
    using fetch_loop_requests[of cookies pages "page + 1" acc w1] assms(1) by auto
  then have "PayoutsGet (cookie_header cookies) (page + 1) \<in> set ext"
    by (metis hd_in_set)
  then show ?thesis unfolding eq ext(1) k by simp
qed

theorem fetch_continues_witness:
  "(1::int) < 3 \<and>
   fst (fetchTransactionsPage session 1 blank_world) = Inr [] \<and>
   PayoutsGet ''sid=abc; rsid=def'' 2 \<in>
     set (http_log (snd (fetchTransactions session (Some 3) blank_world)))"
proof -
  have p: "fst (fetchTransactionsPage session 1
             (if 1 < (1::int) then sleep (Some (real_of_int BASE_DELAY)) blank_world else blank_world)) = Inr []"
    by (simp add: eval_defs blank_world_def cookie_header_session)
  have l: "(1::int) < 3" by simp
  from fetch_continues[OF l disjI1[OF p], of "[]"] p
  show ?thesis
    by (simp add: fetchTransactions_def cookie_header_session blank_world_def empty_world_def)
qed

text \<open>
  C2, as the claim has it, fails: page 2 of the feed is empty, so it yields no record the
  store does not know, and page 3 is requested all the same.
\<close>

theorem fetch_after_empty_page:
  "page_data (resp_data (page_of [])) = Inr [] \<and>
   http gap_world (PayoutsGet ''sid=abc; rsid=def'' 2) 1 = Resolved (page_of []) \<and>
   http_log (snd (fetchTransactions session (Some 3) gap_world)) =
     [PayoutsGet ''sid=abc; rsid=def'' 1, PayoutsGet ''sid=abc; rsid=def'' 2,
      PayoutsGet ''sid=abc; rsid=def'' 3] \<and>
   fst (fetchTransactions session (Some 3) gap_world) = [payout 8, payout 9]"
  by (simp add: eval_defs gap_world_def cookie_header_session Let_def)

text \<open>A result of \<open>withRetry\<close> is the result of one of the attempts.\<close>

lemma withRetry_result:
  "fst (withRetry fn retries d w) = Inr v \<Longrightarrow> \<exists>w'. fst (fn w') = Inr v"
proof (induction retries arbitrary: d w)
  case 0
  have "withRetry fn 0 d w = fn w"
    by (cases "fst (fn w)") (auto intro: withRetry_stop)
  with 0 show ?case by auto
next
  case (Suc n)
  show ?case
  proof (cases "\<exists>e. fst (fn w) = Inl e \<and> unreachable e")
    case True
    then obtain e where e: "fst (fn w) = Inl e" "unreachable e" by blast
    then have "withRetry fn (Suc n) d w = withRetry fn n (d * 1.5) (sleep (Some d) (snd (fn w)))"
      using withRetry_again[where fn=fn and w=w and e=e] by simp
    with Suc.prems Suc.IH show ?thesis by metis
  next
    case False
    then have "withRetry fn (Suc n) d w = fn w"
      by (cases "fst (fn w)") (auto intro: withRetry_stop)
    with Suc.prems show ?thesis by auto
  qed
qed

text \<open>
  The store query of the duplicate check returns bigints, so the set built from it holds
  no number: the filter of \<open>fetch_page\<close> keeps every record of the page, and the body of
  the loop never ends in \<open>break\<close>.
\<close>

lemma findMany_in_bigint:
  assumes "withRetry_default (idexTransaction_findMany_in ids) w = (Inr existing, w2)"
  shows "\<not> has existing (JSNumber n)"
proof -
  from assms have "fst (withRetry (idexTransaction_findMany_in ids) 3 2000 w) = Inr existing"
    by (simp add: withRetry_default_def)
  from withRetry_result[OF this]
  obtain w' where "fst (idexTransaction_findMany_in ids w') = Inr existing" by blast
  then have "set existing \<subseteq> range JSBigInt"
    by (auto simp: idexTransaction_findMany_in_def db_call_def Let_def split: option.splits)
  then show ?thesis by (auto simp: has_def)
qed

lemma duplicate_check_keeps_all:
  assumes "withRetry_default (idexTransaction_findMany_in ids) w = (Inr existing, w2)"
  shows "filter (\<lambda>t. \<not> has existing (JSNumber (t_id t))) transactions = transactions"
  using findMany_in_bigint[OF assms] by simp

lemma fetch_page_never_stops: "\<not> fst (fst (fetch_page cookies page acc w))"
proof -
  let ?w0 = "if page > 1 then sleep (Some (real_of_int BASE_DELAY)) w else w"
  obtain r w1 where p: "fetchTransactionsPage cookies page ?w0 = (r, w1)" by force
  show ?thesis
  proof (cases r)
    case (Inl e)
    with p show ?thesis by (simp add: fetch_page_def)
  next
    case (Inr transactions)
    obtain q w2 where q: "withRetry_default (idexTransaction_findMany_in (map t_id transactions)) w1 = (q, w2)"
      by force
    show ?thesis
    proof (cases q)
      case (Inl e)
      with p q Inr show ?thesis by (simp add: fetch_page_def)
    next
      case existing: (Inr existing)
      from duplicate_check_keeps_all[OF q[unfolded existing], of transactions]
      show ?thesis using p q Inr existing by (simp add: fetch_page_def Let_def)
    qed
  qed
qed

text \<open>
  C9 at a page whose only record is stored for another cabinet: the store is asked for
  the external id 7 with no cabinet in the filter and finds the row, but the record is
  returned as new and the fetch goes on to page 2.
\<close>

theorem fetch_known_record:
  "map externalId (idexTransaction known_world) = [7] \<and>
   http_log (snd (fetchTransactions session (Some 2) known_world)) =
     [PayoutsGet ''sid=abc; rsid=def'' 1, PayoutsGet ''sid=abc; rsid=def'' 2] \<and>
   db_log (snd (fetchTransactions session (Some 2) known_world)) = [TransactionFindManyIn [7]] \<and>
   fst (fetchTransactions session (Some 2) known_world) = [payout 7]"
  by (simp add: eval_defs known_world_def cookie_header_session Let_def create_data_def payout_def)

subsection \<open>saveTransactions\<close>

text \<open>
  The decimal text determines the integer.
\<close>

lemma digit_inj: "0 \<le> n \<Longrightarrow> n < 10 \<Longrightarrow> 0 \<le> m \<Longrightarrow> m < 10 \<Longrightarrow> digit n = digit m \<Longrightarrow> n = m"
proof -
  assume a: "0 \<le> n" "n < 10" "0 \<le> m" "m < 10" "digit n = digit m"
  have d: "distinct ''0123456789''" by simp
  have l: "length ''0123456789'' = 10" by simp
  from a have "nat n = nat m"
    unfolding digit_def using nth_eq_iff_index_eq[OF d, of "nat n" "nat m"] l by simp
  with a show ?thesis by simp
qed

lemma digit_not_minus: "n < 10 \<Longrightarrow> digit n \<noteq> CHR ''-''"
proof -
  assume "n < 10"
  then have "digit n \<in> set ''0123456789''" unfolding digit_def by (intro nth_mem) simp
  then show ?thesis by auto
qed

lemma decimal_small: "n < 10 \<Longrightarrow> decimal n = [digit n]"
  by (subst decimal.simps) simp

lemma decimal_large: "\<not> n < 10 \<Longrightarrow> decimal n = decimal (n div 10) @ [digit (n mod 10)]"
  by (subst decimal.simps) simp

lemma decimal_not_empty: "decimal n \<noteq> []"
  by (cases "n < 10") (simp_all add: decimal_small decimal_large)

lemma decimal_inj: "0 \<le> n \<Longrightarrow> 0 \<le> m \<Longrightarrow> decimal n = decimal m \<Longrightarrow> n = m"
proof (induction n arbitrary: m rule: decimal.induct)
  case (1 n)
  show ?case
  proof (cases "n < 10")
    case n: True
    show ?thesis
    proof (cases "m < 10")
      case True
      with n 1(2,3,4) digit_inj[of n m] show ?thesis by (simp add: decimal_small)
    next
      case False
      with n 1(4) decimal_not_empty[of "m div 10"] show ?thesis
        by (simp add: decimal_small decimal_large)
    qed
  next
    case n: False
    show ?thesis
    proof (cases "m < 10")
      case True
      with n 1(4) decimal_not_empty[of "n div 10"] show ?thesis
        by (simp add: decimal_small decimal_large)
    next
      case False
      with n 1(4) have "decimal (n div 10) = decimal (m div 10)" "digit (n mod 10) = digit (m mod 10)"
        by (simp_all add: decimal_large)
      moreover have "0 \<le> n div 10" "0 \<le> m div 10" using 1(2,3) by simp_all
      ultimately have "n div 10 = m div 10" "n mod 10 = m mod 10"
        using 1(1)[OF n, of "m div 10"] digit_inj[of "n mod 10" "m mod 10"] by simp_all
      then show ?thesis by (metis div_mult_mod_eq)
    qed
  qed
qed

lemma decimal_hd: "hd (decimal n) \<noteq> CHR ''-''"
proof (induction n rule: decimal.induct)
  case (1 n)
  show ?case
  proof (cases "n < 10")
    case True
    then show ?thesis by (simp add: decimal_small digit_not_minus)
  next
    case False
    with 1 decimal_not_empty[of "n div 10"] show ?thesis by (simp add: decimal_large)
  qed
qed

lemma BigInt_toString_inj: "BigInt_toString a = BigInt_toString b \<Longrightarrow> a = b"
proof -
  assume eq: "BigInt_toString a = BigInt_toString b"
  have neg: False if "decimal n = CHR ''-'' # s" for n s
    using decimal_hd[of n] that by simp
  show ?thesis
  proof (cases "a < 0")
    case a: True
    show ?thesis
    proof (cases "b < 0")
      case True
      with a eq decimal_inj[of "- a" "- b"] have "- a = - b" by (simp add: BigInt_toString_def)
      then show ?thesis by simp
    next
      case False
      with a eq neg[of b "decimal (- a)"] show ?thesis by (simp add: BigInt_toString_def)
    qed
  next
    case a: False
    show ?thesis
    proof (cases "b < 0")
      case True
      with a eq neg[of a "decimal (- b)"] show ?thesis by (simp add: BigInt_toString_def)
    next
      case False
      with a eq decimal_inj[of a b] show ?thesis by (simp add: BigInt_toString_def)
    qed
  qed
qed

text \<open>
  An integer below \<open>2^53\<close> in size is a double, and no other integer reads back as it:
  its text as a number has all its digits, as its text as a bigint has.
\<close>

lemma div_less_int: "0 < b \<Longrightarrow> n < c * b \<Longrightarrow> n div b < (c::int)"
proof -
  assume b: "0 < b" and n: "n < c * b"
  have "b * (n div b) \<le> n" using b by (metis add_increasing2 mult_div_mod_eq order_refl pos_mod_sign)
  with n have "b * (n div b) < b * c" by (simp add: mult.commute)
  with b show ?thesis by (simp add: mult_less_cancel_left_pos)
qed

lemma le_div_int: "0 < b \<Longrightarrow> c * b \<le> n \<Longrightarrow> (c::int) \<le> n div b"
  using zdiv_mono1[of "c * b" n b] by simp

lemma width_pos: "0 < n \<Longrightarrow> 2 \<le> b \<Longrightarrow> width b n = Suc (width b (n div b))"
  by (subst width.simps) simp

lemma width_zero: "n \<le> 0 \<Longrightarrow> width b n = 0"
  by (subst width.simps) simp

lemma width_less: "2 \<le> b \<Longrightarrow> n < b ^ k \<Longrightarrow> width b n \<le> k"
proof (induction k arbitrary: n)
  case 0
  then have "n \<le> 0" by simp
  then show ?case by (simp add: width_zero)
next
  case (Suc k)
  show ?case
  proof (cases "0 < n")
    case False
    then show ?thesis by (simp add: width_zero)
  next
    case True
    from Suc.prems have "n div b < b ^ k"
      by (intro div_less_int) (simp_all add: mult.commute)
    with Suc.IH[OF Suc.prems(1)] True Suc.prems(1) show ?thesis by (simp add: width_pos)
  qed
qed

lemma width_lower: "2 \<le> b \<Longrightarrow> b ^ k \<le> n \<Longrightarrow> k < width b n"
proof (induction k arbitrary: n)
  case 0
  then have "0 < n" by simp
  with 0 show ?case by (simp add: width_pos)
next
  case (Suc k)
  then have pos: "0 < n" by (smt (verit) zero_less_power)
  from Suc.prems have "b ^ k \<le> n div b"
    by (intro le_div_int) (simp_all add: mult.commute)
  with Suc.IH[OF Suc.prems(1)] pos Suc.prems(1) show ?case by (simp add: width_pos)
qed

lemma nearest_double_small: "n < 2 ^ 53 \<Longrightarrow> nearest_double n = n"
  using width_less[of 2 n 53] by (simp add: nearest_double_def Let_def)

lemma nearest_double_large:
  assumes "2 ^ 53 \<le> n"
  shows "2 ^ 53 \<le> nearest_double n"
proof -
  define e where "e = width 2 n - 53"
  define q where "q = n div 2 ^ e"
  have w: "53 < width 2 n" using width_lower[of 2 53 n] assms by simp
  then have e: "0 < e" "width 2 n = e + 53" by (simp_all add: e_def)
  have "\<not> width 2 n \<le> e + 52" using e by simp
  then have "\<not> n < 2 ^ (e + 52)" using width_less[of 2 n "e + 52"] by auto
  then have "(2::int) ^ 52 * 2 ^ e \<le> n" by (simp add: power_add mult.commute)
  then have q: "2 ^ 52 \<le> q" unfolding q_def by (intro le_div_int) simp_all
  have p: "(2::int) \<le> 2 ^ e" using e(1) by (metis One_nat_def Suc_leI one_le_numeral power_increasing power_one_right)
  have "(2::int) ^ 53 = 2 ^ 52 * 2" by simp
  also have "\<dots> \<le> q * 2 ^ e" using q p by (intro mult_mono) simp_all
  finally have lo: "2 ^ 53 \<le> q * 2 ^ e" .
  have "q * 2 ^ e \<le> (q + 1) * 2 ^ e" by (simp add: distrib_right)
  with lo have hi: "2 ^ 53 \<le> (q + 1) * 2 ^ e" by linarith
  show ?thesis
    using e(1) lo hi unfolding nearest_double_def Let_def e_def[symmetric] q_def[symmetric] by simp
qed

lemma nearest_double_safe: "x < 2 ^ 53 \<Longrightarrow> nearest_double v = x \<Longrightarrow> v = x"
  using nearest_double_large[of v] nearest_double_small[of v] by (cases "v < 2 ^ 53") auto

lemma candidate_sound: "candidate x m = Some v \<Longrightarrow> nearest_double v = x"
  by (simp add: candidate_def Let_def split: if_splits)

lemma shortest_safe: "x < 2 ^ 53 \<Longrightarrow> shortest x m = x"
proof (induction m)
  case 0
  show ?case by simp
next
  case (Suc m)
  show ?case
  proof (cases "candidate x (Suc m)")
    case None
    with Suc show ?thesis by simp
  next
    case (Some v)
    with nearest_double_safe[OF Suc.prems candidate_sound[OF Some]] show ?thesis by simp
  qed
qed

lemma number_digits_safe:
  assumes "n < 2 ^ 53"
  shows "number_digits n = decimal n"
proof -
  have "n < 10 ^ 21" using assms by simp
  then have "width 10 n \<le> 21" using width_less[of 10 n 21] by simp
  then show ?thesis
    using assms by (simp add: number_digits_def Let_def nearest_double_small shortest_safe)
qed

lemma Number_toString_safe: "isSafeInteger n \<Longrightarrow> Number_toString n = BigInt_toString n"
  by (simp add: isSafeInteger_def Number_toString_def BigInt_toString_def number_digits_safe)

text \<open>
  So for a safe integer the key of an incoming record equals the key of a stored row of the
  same cabinet exactly when the external ids are equal, and the filter of
  \<open>saveTransactions\<close> keeps the records whose pair is not stored.  Beyond the safe
  integers the two texts of one id differ.
\<close>

lemma pair_key_match:
  "isSafeInteger a \<Longrightarrow>
   pair_key (BigInt_toString e) c = pair_key (Number_toString a) c \<longleftrightarrow> e = a"
  by (auto simp: pair_key_def Number_toString_safe dest: BigInt_toString_inj)

lemma pair_key_small:
  "isSafeInteger a \<Longrightarrow> pair_key (Number_toString a) c = pair_key (BigInt_toString e) c \<longleftrightarrow> e = a"
  using pair_key_match[of a e c] by auto



lemma text_of_large_number:
  "Number_toString 1152921504606846976 = ''1152921504606847000'' \<and>
   BigInt_toString 1152921504606846976 = ''1152921504606846976'' \<and>
   Number_toString 9007199254740993 = ''9007199254740992'' \<and>
   Number_toString 1000000000000000000000 = ''1e+21'' \<and>
   Number_toString (- 1180591620717411303424) = ''-1.1805916207174113e+21''"
  by code_simp

lemma texts_differ:
  "Number_toString 9223372036854775808 \<noteq> BigInt_toString 7 \<and>
   Number_toString 1152921504606846976 \<noteq> BigInt_toString 7 \<and>
   Number_toString 1152921504606846976 \<noteq> BigInt_toString 1152921504606846976"
  by code_simp

text \<open>
  \<open>attempt\<close> is one turn of \<open>withRetry\<close>, and the promise of a single call behaves as the
  call does.
\<close>

lemma withRetry_attempt:
  "withRetry fn retries delay w =
     (case attempt (Pending fn retries delay) w of
        (Inl e, w1) \<Rightarrow> (Inl e, w1)
      | (Inr (Settled v), w1) \<Rightarrow> (Inr v, w1)
      | (Inr (Pending fn' retries' delay'), w1) \<Rightarrow> withRetry fn' retries' delay' w1)"
  by (subst withRetry.simps) (simp add: attempt_def split: prod.splits sum.splits)

lemma promise_all_done: "waiting calls = [] \<Longrightarrow> promise_all calls w = (Inr (settled_values calls), w)"
  by (subst promise_all.simps) simp

lemma promise_all_next:
  "waiting calls \<noteq> [] \<Longrightarrow>
   promise_all calls w =
     (let i = waiting calls ! (schedule w (length (db_log w)) mod length (waiting calls)) in
      case attempt (calls ! i) w of
        (Inl e, w1) \<Rightarrow> (Inl e, w1)
      | (Inr c, w1) \<Rightarrow> promise_all (calls[i := c]) w1)"
  by (subst promise_all.simps) simp

lemma waiting_member:
  "waiting calls \<noteq> [] \<Longrightarrow> waiting calls ! (k mod length (waiting calls)) \<in> set (waiting calls)"
  by (intro nth_mem) simp

lemma waiting_set: "i \<in> set (waiting calls) \<longleftrightarrow> i < length calls \<and> \<not> settled (calls ! i)"
  by (auto simp: waiting_def)




lemma single_promise:
  "promise_all [Pending fn retries delay] w =
     (case withRetry fn retries delay w of
        (Inl e, w1) \<Rightarrow> (Inl e, w1)
      | (Inr v, w1) \<Rightarrow> (Inr [v], w1))"
proof (induction retries arbitrary: delay w)
  case 0
  have p: "waiting [Pending fn 0 delay] = [0]" by (simp add: waiting_def)
  have d: "waiting [Settled v] = []" for v :: 'a by (simp add: waiting_def)
  show ?case
    unfolding promise_all_next[of "[Pending fn 0 delay]" w, unfolded p, simplified]
    by (subst withRetry.simps)
       (auto simp: attempt_def promise_all_done d split: prod.splits sum.splits)
next
  case (Suc n)
  have p: "waiting [Pending fn (Suc n) delay] = [0]" by (simp add: waiting_def)
  have d: "waiting [Settled v] = []" for v :: 'a by (simp add: waiting_def)
  show ?case
    unfolding promise_all_next[of "[Pending fn (Suc n) delay]" w, unfolded p, simplified]
    by (subst withRetry.simps)
       (auto simp: attempt_def promise_all_done d Suc.IH split: prod.splits sum.splits)
qed





lemma attempt_create:
  assumes "attempt (Pending (idexTransaction_create row) retries delay) w = (res, w1)"
  shows "(res = Inr (Settled row) \<and> idexTransaction w1 = idexTransaction w @ [row]) \<or>
         (idexTransaction w1 = idexTransaction w \<and>
          ((\<exists>e. res = Inl e) \<or>
           res = Inr (Pending (idexTransaction_create row) (retries - 1) (delay * 1.5))))"
  using assms
  by (auto simp: attempt_def idexTransaction_create_def db_call_def sleep_def Let_def
           split: prod.splits sum.splits if_splits option.splits)








text \<open>
  \<open>saveTransactions\<close> in every world, for a batch of safe ids.
\<close>

lemma started_calls:
  "list_all2 create_call rows (map (\<lambda>row. withRetry_call (idexTransaction_create row)) rows) \<and>
   unserved rows (map (\<lambda>row. withRetry_call (idexTransaction_create row)) rows) = rows \<and>
   waiting (map (\<lambda>row. withRetry_call (idexTransaction_create row)) rows) = [0 ..< length rows]"
proof -
  have p: "waiting (map (\<lambda>row. withRetry_call (idexTransaction_create row)) rows) = [0 ..< length rows]"
    by (auto simp: waiting_def withRetry_call_def filter_id_conv)
  have "list_all2 create_call rows (map (\<lambda>row. withRetry_call (idexTransaction_create row)) rows)"
    unfolding list_all2_map2 by (rule list_all2_refl) (auto simp: create_call_def withRetry_call_def)
  with p show ?thesis by (simp add: unserved_def map_nth)
qed














text \<open>
  The equations that evaluate \<open>saveTransactions\<close> in an example world, and two runs.  In
  the second the promise is rejected with the first rejection in time: the call for
  record 8 waits for its retry when the call for record 9 is rejected, and
  \<open>saveTransactions\<close> throws the error of the latter without sending the former again.
\<close>

lemmas save_eval_defs = saveTransactions_def withRetry_default_def withRetry.simps db_call_def
  idexTransaction_findMany_cabinet_def idexTransaction_create_def has_def unreachable_def
  promise_all.simps waiting_def attempt_def withRetry_call_def int32_def int64_def sleep_def





text \<open>
  Two more runs.  An id of \<open>2^63\<close> does not fit the column.  An id of \<open>2^60\<close> is stored
  by the first run and not recognised by the second, which runs into the unique pair.
\<close>

lemma save_out_of_range:
  "fst (saveTransactions [payout 9223372036854775808] 1 known_world) =
     Inl (PrismaError ''P2020'' ''Value out of range for the type'')"
  by (simp add: save_eval_defs pair_key_def texts_differ
        known_world_def empty_world_def cabinet_no_def create_data_def payout_def Let_def)

lemma save_unsafe_id:
  "\<not> isSafeInteger 1152921504606846976 \<and>
   fst (saveTransactions [payout 1152921504606846976] 1 known_world) =
     Inr [create_data (payout 1152921504606846976) 1] \<and>
   fst (saveTransactions [payout 1152921504606846976] 1
          (snd (saveTransactions [payout 1152921504606846976] 1 known_world))) =
     Inl (PrismaError ''P2002'' ''Unique constraint failed'')"
  by (simp add: save_eval_defs pair_key_def texts_differ isSafeInteger_def
        known_world_def empty_world_def cabinet_no_def create_data_def payout_def Let_def)

subsection \<open>processPendingIdexSyncOrders\<close>

text \<open>Everything a cabinet does leaves the orders aside.\<close>

lemma aside_refl: "aside w w"
  by (simp add: aside_def)

lemma aside_trans: "aside w w1 \<Longrightarrow> aside w1 w2 \<Longrightarrow> aside w w2"
  by (auto simp: aside_def)

lemma aside_sleep: "aside w (sleep ms w)"
  by (simp add: aside_def sleep_def)

lemma aside_http: "aside w (w\<lparr>http_log := l, timers := t\<rparr>)"
  by (simp add: aside_def)

lemma aside_db_call:
  assumes "\<not> order_request req"
    and "\<And>w. idexSyncOrder (snd (run w)) = idexSyncOrder w \<and> idexCabinet (snd (run w)) = idexCabinet w \<and>
             db_fault (snd (run w)) = db_fault w \<and> db_log (snd (run w)) = db_log w"
  shows "aside w (snd (db_call req run w))"
  using assms by (auto simp: aside_def db_call_def Let_def split: option.splits)

lemma aside_withRetry:
  assumes "\<And>w. aside w (snd (fn w))"
  shows "aside w (snd (withRetry fn retries d w))"
  by (rule withRetry_invariant[where P="aside w"])
     (auto intro: aside_refl aside_trans[OF _ assms] aside_trans[OF _ aside_sleep])

lemma login_loop_world:
  "retryCount \<le> MAX_RETRIES \<Longrightarrow>
   \<exists>k ds. snd (login_loop creds retryCount delay w) =
         w\<lparr>http_log := http_log w @ replicate k (LoginPost (cred_login creds) (cred_password creds)),
           timers := timers w @ ds\<rparr>"
proof (induction n \<equiv> "MAX_RETRIES - retryCount" arbitrary: retryCount delay w)
  case 0
  let ?req = "LoginPost (cred_login creds) (cred_password creds)"
  from 0 have stop: "\<not> retryCount < MAX_RETRIES" by simp
  show ?case
  proof (cases "rate_limited (http w ?req (length (http_log w)))")
    case None
    then show ?thesis
      using login_loop_not_limited[OF None] by (intro exI[of _ 1] exI[of _ "[]"]) simp
  next
    case (Some response)
    then show ?thesis
      using login_loop_limited_stop[OF Some stop] by (intro exI[of _ 1] exI[of _ "[]"]) simp
  qed
next
  case (Suc n)
  let ?req = "LoginPost (cred_login creds) (cred_password creds)"
  from Suc.hyps(2) have again: "retryCount < MAX_RETRIES" by simp
  show ?case
  proof (cases "rate_limited (http w ?req (length (http_log w)))")
    case None
    then show ?thesis
      using login_loop_not_limited[OF None] by (intro exI[of _ 1] exI[of _ "[]"]) simp
  next
    case (Some response)
    let ?w1 = "sleep (retry_delay response delay) (w\<lparr>http_log := http_log w @ [?req]\<rparr>)"
    have n: "n = MAX_RETRIES - (retryCount + 1)" "retryCount + 1 \<le> MAX_RETRIES"
      using Suc.hyps(2) by simp_all
    from Suc.hyps(1)[OF n, of "delay * 2" ?w1] obtain k ds where k:
      "snd (login_loop creds (retryCount + 1) (delay * 2) ?w1) =
         ?w1\<lparr>http_log := http_log ?w1 @ replicate k ?req, timers := timers ?w1 @ ds\<rparr>" by blast
    show ?thesis
      using k again unfolding login_loop_limited_again[OF Some again]
      by (intro exI[of _ "Suc k"] exI[of _ "retry_delay response delay # ds"])
         (simp add: sleep_def replicate_app_Cons_same)
  qed
qed

lemma aside_login: "aside w (snd (login creds w))"
  using login_loop_world[of 0 creds BASE_DELAY w]
  by (auto simp: login_def MAX_RETRIES_def aside_http)

lemma aside_fetchTransactionsPage: "aside w (snd (fetchTransactionsPage cookies page w))"
  using fetchTransactionsPage_world[of cookies page w] by (auto simp: aside_http)

lemma aside_findMany_in: "aside w (snd (withRetry_default (idexTransaction_findMany_in ids) w))"
  unfolding withRetry_default_def idexTransaction_findMany_in_def
  by (intro aside_withRetry aside_db_call) (simp_all add: order_request_def)

lemma aside_findMany_cabinet:
  "aside w (snd (withRetry_default (idexTransaction_findMany_cabinet cid) w))"
  unfolding withRetry_default_def idexTransaction_findMany_cabinet_def
  by (intro aside_withRetry aside_db_call) (simp_all add: order_request_def)

lemma aside_create: "aside w (snd (withRetry_default (idexTransaction_create row) w))"
  unfolding withRetry_default_def idexTransaction_create_def
  by (intro aside_withRetry aside_db_call) (simp_all add: order_request_def)

lemma aside_cabinet_findMany: "aside w (snd (withRetry_default idexCabinet_findMany w))"
  unfolding withRetry_default_def idexCabinet_findMany_def
  by (intro aside_withRetry aside_db_call) (simp_all add: order_request_def)

lemma aside_cabinet_findUnique: "aside w (snd (withRetry_default (idexCabinet_findUnique cid) w))"
  unfolding withRetry_default_def idexCabinet_findUnique_def
  by (intro aside_withRetry aside_db_call) (simp_all add: order_request_def)

lemma aside_fetch_page: "aside w (snd (fetch_page cookies page acc w))"
proof -
  let ?w0 = "if page > 1 then sleep (Some (real_of_int BASE_DELAY)) w else w"
  have a0: "aside w ?w0" by (simp add: aside_refl aside_sleep)
  obtain r w1 where p: "fetchTransactionsPage cookies page ?w0 = (r, w1)" by force
  have a1: "aside w w1"
    using aside_trans[OF a0 aside_fetchTransactionsPage[of ?w0 cookies page]] p by simp
  have "aside w w2" if "withRetry_default (idexTransaction_findMany_in ids) w1 = (q, w2)" for ids q w2
    using aside_trans[OF a1 aside_findMany_in[of w1 ids]] that by simp
  then show ?thesis
    using p a1 by (auto simp: fetch_page_def Let_def split: sum.splits prod.splits)
qed

lemma aside_fetch_loop: "aside w (snd (fetch_loop cookies pages page acc w))"
proof (induction n \<equiv> "nat (pages + 1 - page)" arbitrary: page acc w)
  case 0
  then have "\<not> page \<le> pages" by simp
  then show ?case by (simp add: fetch_loop_done aside_refl)
next
  case (Suc n)
  then have le: "page \<le> pages" by simp
  obtain stop acc' w1 where b: "fetch_page cookies page acc w = ((stop, acc'), w1)"
    by (metis surj_pair)
  have a1: "aside w w1" using aside_fetch_page[of w cookies page acc] b by simp
  show ?case
  proof (cases stop)
    case True
    with b le a1 show ?thesis by (simp add: fetch_loop_break)
  next
    case False
    have n: "n = nat (pages + 1 - (page + 1))" using Suc.hyps(2) by simp
    from False b le have "fetch_loop cookies pages page acc w = fetch_loop cookies pages (page + 1) acc' w1"
      by (simp add: fetch_loop_next)
    with aside_trans[OF a1 Suc.hyps(1)[OF n, where acc=acc' and w=w1]] show ?thesis by simp
  qed
qed

lemma aside_fetchTransactions: "aside w (snd (fetchTransactions cookies pages w))"
  by (simp add: fetchTransactions_def aside_fetch_loop)

lemma aside_attempt_create:
  "aside w (snd (attempt (Pending (idexTransaction_create row) retries delay) w))"
proof -
  obtain r w1 where c: "idexTransaction_create row w = (r, w1)" by force
  have "aside w (snd (idexTransaction_create row w))"
    unfolding idexTransaction_create_def
    by (intro aside_db_call) (simp_all add: order_request_def)
  with c have a: "aside w w1" by simp
  then have "aside w (sleep ms w1)" for ms by (blast intro: aside_trans aside_sleep)
  with a c show ?thesis by (cases r) (simp_all add: attempt_def)
qed

lemma aside_promise_all:
  assumes "list_all2 create_call rows calls"
  shows "aside w (snd (promise_all calls w))"
  using assms
proof (induction calls w rule: promise_all.induct)
  case (1 calls w)
  show ?case
  proof (cases "waiting calls = []")
    case True
    then show ?thesis by (simp add: promise_all_done aside_refl)
  next
    case False
    define i where "i = waiting calls ! (schedule w (length (db_log w)) mod length (waiting calls))"
    obtain res w1 where a: "attempt (calls ! i) w = (res, w1)" by force
    have "i \<in> set (waiting calls)" unfolding i_def using False by (rule waiting_member)
    then have i: "i < length calls" "\<not> settled (calls ! i)" by (simp_all add: waiting_set)
    have "create_call (rows ! i) (calls ! i)" using 1(2) i(1) by (simp add: list_all2_conv_all_nth)
    with i(2) obtain retries delay where
      p: "calls ! i = Pending (idexTransaction_create (rows ! i)) retries delay"
      by (auto simp: create_call_def)
    have a1: "aside w w1"
      using aside_attempt_create[of w "rows ! i" retries delay] a p by simp
    have step: "promise_all calls w =
                  (case res of Inl e \<Rightarrow> (Inl e, w1) | Inr c \<Rightarrow> promise_all (calls[i := c]) w1)"
      using a by (simp add: promise_all_next[OF False] i_def[symmetric])
    show ?thesis
    proof (cases res)
      case (Inl e)
      with step a1 show ?thesis by simp
    next
      case (Inr c)
      with attempt_create[OF a[unfolded p]] have "create_call (rows ! i) c"
        unfolding create_call_def by blast
      from list_all2_update_cong[OF 1(2) this, of i]
      have r: "list_all2 create_call rows (calls[i := c])" by simp
      from 1(1)[OF False i_def a[symmetric] Inr r] a1 step Inr
      show ?thesis by (auto intro: aside_trans)
    qed
  qed
qed

lemma aside_saveTransactions: "aside w (snd (saveTransactions transactions cid w))"
proof -
  obtain r w1 where f: "withRetry_default (idexTransaction_findMany_cabinet cid) w = (r, w1)" by force
  have a1: "aside w w1" using aside_findMany_cabinet[of w cid] f by simp
  have "aside w1 (snd (promise_all (map (\<lambda>transaction. withRetry_call
           (idexTransaction_create (create_data transaction cid))) ts) w1))" for ts
    using aside_promise_all[OF conjunct1[OF started_calls[of "map (\<lambda>t. create_data t cid) ts"]], of w1]
    by (simp add: comp_def)
  then show ?thesis
    using f a1 by (auto simp: saveTransactions_def Let_def split: sum.splits intro: aside_trans)
qed

lemma aside_sync_cabinet: "aside w (snd (sync_cabinet order i c w))"
proof -
  let ?creds = "\<lparr>cred_login = cab_login c, cred_password = cab_password c\<rparr>"
  obtain r w1 where l: "login ?creds w = (r, w1)" by force
  have a1: "aside w w1" using aside_login[of w ?creds] l by simp
  show ?thesis
  proof (cases r)
    case (Inl e)
    with l a1 show ?thesis by (simp add: sync_cabinet_def)
  next
    case (Inr cookies)
    obtain ts w2 where f: "fetchTransactions cookies (determinePages (Some (ord_pages order)) i) w1 = (ts, w2)"
      by force
    obtain q w3 where s: "saveTransactions ts (cab_id c) w2 = (q, w3)" by force
    have "aside w1 w2"
      using aside_fetchTransactions[of w1 cookies "determinePages (Some (ord_pages order)) i"] f by simp
    moreover have "aside w2 w3" using aside_saveTransactions[of w2 ts "cab_id c"] s by simp
    ultimately have "aside w w3" using a1 by (blast intro: aside_trans)
    with l Inr f s show ?thesis by (cases q) (simp_all add: sync_cabinet_def)
  qed
qed

lemma aside_sync_cabinets: "aside w (snd (sync_cabinets order ics acc w))"
proof (induction ics arbitrary: acc w)
  case Nil
  then show ?case by (simp add: aside_refl)
next
  case (Cons ic ics)
  obtain i c where ic: "ic = (i, c)" by force
  obtain entry w1 where s: "sync_cabinet order i c w = (entry, w1)" by force
  have "aside w w1" using aside_sync_cabinet[of w order i c] s by simp
  with Cons.IH[of w1 "acc @ [entry]"] ic s show ?case by (auto intro: aside_trans)
qed

lemma aside_determineCabinetsToSync: "aside w (snd (determineCabinetsToSync order w))"
proof -
  have "aside w w1" if "withRetry_default idexCabinet_findMany w = (r, w1)" for r w1
    using aside_cabinet_findMany[of w] that by simp
  moreover have "aside w w1" if "withRetry_default (idexCabinet_findUnique cid) w = (r, w1)" for r w1 cid
    using aside_cabinet_findUnique[of w cid] that by simp
  ultimately show ?thesis
    by (auto simp: determineCabinetsToSync_def Let_def split: option.splits sum.splits prod.splits)
qed

text \<open>An order under a store that rejects no request on the order table.\<close>

lemma update_accepted:
  assumes "accepts_orders w" and "oid \<in> ord_id ` set (idexSyncOrder w)"
  shows "\<exists>row. withRetry_default (idexSyncOrder_update_by_id oid st proc) w =
               (Inr row, write_order oid st proc w)"
proof -
  from assms(2) obtain row where row: "find (\<lambda>x. ord_id x = oid) (idexSyncOrder w) = Some row"
    by (cases "find (\<lambda>x. ord_id x = oid) (idexSyncOrder w)") (auto simp: find_None_iff)
  have "db_fault w (OrderUpdate oid st proc) (length (db_log w)) = None"
    using assms(1) by (simp add: accepts_orders_def order_request_def)
  then have f: "idexSyncOrder_update_by_id oid st proc w =
                  (Inr (update_order st proc row), write_order oid st proc w)"
    using row by (simp add: idexSyncOrder_update_by_id_def db_call_def write_order_def)
  show ?thesis
    unfolding withRetry_default_def
    using withRetry_stop[where fn="idexSyncOrder_update_by_id oid st proc" and w=w] f by simp
qed

lemma write_order_ids:
  "map ord_id (idexSyncOrder (write_order oid st proc w)) = map ord_id (idexSyncOrder w)"
proof -
  have "map ord_id (map (\<lambda>x. if ord_id x = oid then update_order st proc x else x) xs) = map ord_id xs"
    for xs by (induction xs) (auto simp: update_order_def)
  then show ?thesis by (simp add: write_order_def)
qed

lemma write_order_keeps:
  "accepts_orders w \<Longrightarrow> accepts_orders (write_order oid st proc w)"
  "ord_id ` set (idexSyncOrder (write_order oid st proc w)) = ord_id ` set (idexSyncOrder w)"
proof -
  show "accepts_orders w \<Longrightarrow> accepts_orders (write_order oid st proc w)"
    by (simp add: accepts_orders_def write_order_def)
  show "ord_id ` set (idexSyncOrder (write_order oid st proc w)) = ord_id ` set (idexSyncOrder w)"
    using arg_cong[OF write_order_ids[of oid st proc w], of set] by simp
qed

lemma aside_keeps:
  assumes "aside w w'"
  shows "accepts_orders w \<Longrightarrow> accepts_orders w'"
    and "ord_id ` set (idexSyncOrder w') = ord_id ` set (idexSyncOrder w)"
  using assms by (auto simp: aside_def accepts_orders_def)

lemma fail_order_accepted:
  assumes "accepts_orders w" and "ord_id order \<in> ord_id ` set (idexSyncOrder w)"
  shows "fail_order order e w = (Inr (), write_order (ord_id order) FAILED (Some (OrderError e)) w)"
  using update_accepted[OF assms, of FAILED "Some (OrderError e)"]
  by (auto simp: fail_order_def)

lemma process_order_accepted:
  assumes "accepts_orders w" and "ord_id order \<in> ord_id ` set (idexSyncOrder w)"
  shows "process_order order w =
           (case determineCabinetsToSync order (write_order (ord_id order) IN_PROGRESS None w) of
              (Inl e, w2) \<Rightarrow> (Inr (), write_order (ord_id order) FAILED (Some (OrderError e)) w2)
            | (Inr cabinetsToSync, w2) \<Rightarrow>
                (case sync_cabinets order (indexed cabinetsToSync) [] w2 of
                   (entries, w3) \<Rightarrow>
                     (Inr (), write_order (ord_id order) COMPLETED (Some (Results entries)) w3)))"
proof -
  let ?oid = "ord_id order"
  let ?w1 = "write_order ?oid IN_PROGRESS None w"
  from update_accepted[OF assms, of IN_PROGRESS None]
  obtain row where u1: "withRetry_default (idexSyncOrder_update_by_id ?oid IN_PROGRESS None) w = (Inr row, ?w1)"
    by blast
  have k1: "accepts_orders ?w1" "?oid \<in> ord_id ` set (idexSyncOrder ?w1)"
    using assms write_order_keeps[where w=w and oid="?oid" and st=IN_PROGRESS and proc=None] by auto
  obtain r2 w2 where d: "determineCabinetsToSync order ?w1 = (r2, w2)" by force
  have a2: "aside ?w1 w2" using aside_determineCabinetsToSync[of ?w1 order] d by simp
  have k2: "accepts_orders w2" "?oid \<in> ord_id ` set (idexSyncOrder w2)"
    using aside_keeps[OF a2] k1 by auto
  show ?thesis
  proof (cases r2)
    case (Inl e)
    with u1 d fail_order_accepted[OF k2, of e] show ?thesis
      by (simp add: process_order_def)
  next
    case (Inr cabinetsToSync)
    obtain entries w3 where s: "sync_cabinets order (indexed cabinetsToSync) [] w2 = (entries, w3)"
      by force
    have a3: "aside w2 w3" using aside_sync_cabinets[of w2 order "indexed cabinetsToSync" "[]"] s by simp
    have k3: "accepts_orders w3" "?oid \<in> ord_id ` set (idexSyncOrder w3)"
      using aside_keeps[OF a3] k2 by auto
    from update_accepted[OF k3, of COMPLETED "Some (Results entries)"]
    obtain row' where u3: "withRetry_default (idexSyncOrder_update_by_id ?oid COMPLETED (Some (Results entries))) w3 =
                             (Inr row', write_order ?oid COMPLETED (Some (Results entries)) w3)"
      by blast
    from u1 d Inr s u3 show ?thesis by (simp add: process_order_def)
  qed
qed

text \<open>The updates that one order and a list of orders receive.\<close>

lemma status_updates_append:
  "status_updates oid (a @ b) = status_updates oid a @ status_updates oid b"
  by (induction oid a rule: status_updates.induct) auto

lemma status_updates_aside:
  "\<forall>req\<in>set ext. \<not> order_request req \<Longrightarrow> status_updates oid ext = []"
  by (induction oid ext rule: status_updates.induct) (auto simp: order_request_def)

lemma write_order_twice:
  assumes "aside (write_order oid IN_PROGRESS None w) w3"
  shows "idexSyncOrder (write_order oid t (Some p) w3) = map (settle oid t p) (idexSyncOrder w)"
    and "db_fault (write_order oid t (Some p) w3) = db_fault w"
    and "\<exists>ext. db_log (write_order oid t (Some p) w3) = db_log w @ ext \<and>
               (\<forall>i. status_updates i ext = (if i = oid then [IN_PROGRESS, t] else []))"
proof -
  from assms obtain mid where mid:
    "idexSyncOrder w3 = idexSyncOrder (write_order oid IN_PROGRESS None w)"
    "db_fault w3 = db_fault (write_order oid IN_PROGRESS None w)"
    "db_log w3 = db_log (write_order oid IN_PROGRESS None w) @ mid"
    "\<forall>req\<in>set mid. \<not> order_request req"
    unfolding aside_def by blast
  show "idexSyncOrder (write_order oid t (Some p) w3) = map (settle oid t p) (idexSyncOrder w)"
    using mid(1) by (simp add: write_order_def settle_def update_order_def comp_def cong: if_cong)
  show "db_fault (write_order oid t (Some p) w3) = db_fault w"
    using mid(2) by (simp add: write_order_def)
  have "db_log (write_order oid t (Some p) w3) =
          db_log w @ ([OrderUpdate oid IN_PROGRESS None] @ mid @ [OrderUpdate oid t (Some p)])"
    using mid(3) by (simp add: write_order_def)
  moreover have "status_updates i ([OrderUpdate oid IN_PROGRESS None] @ mid @ [OrderUpdate oid t (Some p)]) =
                   (if i = oid then [IN_PROGRESS, t] else [])" for i
    using status_updates_aside[OF mid(4)] by (simp add: status_updates_append)
  ultimately show "\<exists>ext. db_log (write_order oid t (Some p) w3) = db_log w @ ext \<and>
               (\<forall>i. status_updates i ext = (if i = oid then [IN_PROGRESS, t] else []))"
    by blast
qed

lemma process_order_settles:
  assumes "accepts_orders w" and "ord_id order \<in> ord_id ` set (idexSyncOrder w)"
  shows "\<exists>t p ext w'. process_order order w = (Inr (), w') \<and> (t = COMPLETED \<or> t = FAILED) \<and>
           idexSyncOrder w' = map (settle (ord_id order) t p) (idexSyncOrder w) \<and>
           db_fault w' = db_fault w \<and> db_log w' = db_log w @ ext \<and>
           (\<forall>i. status_updates i ext = (if i = ord_id order then [IN_PROGRESS, t] else []))"
proof -
  let ?oid = "ord_id order"
  let ?w1 = "write_order ?oid IN_PROGRESS None w"
  note eq = process_order_accepted[OF assms]
  obtain r2 w2 where d: "determineCabinetsToSync order ?w1 = (r2, w2)" by force
  have a2: "aside ?w1 w2" using aside_determineCabinetsToSync[of ?w1 order] d by simp
  show ?thesis
  proof (cases r2)
    case (Inl e)
    with eq d have "process_order order w = (Inr (), write_order ?oid FAILED (Some (OrderError e)) w2)"
      by simp
    with write_order_twice[OF a2, of FAILED "OrderError e"] show ?thesis by blast
  next
    case (Inr cabinetsToSync)
    obtain entries w3 where s: "sync_cabinets order (indexed cabinetsToSync) [] w2 = (entries, w3)"
      by force
    have "aside w2 w3" using aside_sync_cabinets[of w2 order "indexed cabinetsToSync" "[]"] s by simp
    with a2 have a3: "aside ?w1 w3" by (rule aside_trans)
    from eq d Inr s
    have "process_order order w = (Inr (), write_order ?oid COMPLETED (Some (Results entries)) w3)"
      by simp
    with write_order_twice[OF a3, of COMPLETED "Results entries"] show ?thesis by blast
  qed
qed

lemma process_orders_settle:
  assumes "accepts_orders w" and "ord_id ` set pending \<subseteq> ord_id ` set (idexSyncOrder w)"
    and "distinct (map ord_id pending)"
  shows "\<exists>ext. fst (process_orders pending w) = Inr () \<and>
           db_log (snd (process_orders pending w)) = db_log w @ ext \<and>
           list_all2 (order_step (ord_id ` set pending) ext) (idexSyncOrder w)
             (idexSyncOrder (snd (process_orders pending w)))"
  using assms
proof (induction pending arbitrary: w)
  case Nil
  have "list_all2 (order_step {} []) (idexSyncOrder w) (idexSyncOrder w)"
    by (simp add: list_all2_same order_step_def)
  then show ?case by simp
next
  case (Cons order rest)
  let ?oid = "ord_id order"
  have oid: "?oid \<in> ord_id ` set (idexSyncOrder w)" using Cons.prems(2) by simp
  from process_order_settles[OF Cons.prems(1) oid]
  obtain t p ext1 w1 where o: "process_order order w = (Inr (), w1)" "t = COMPLETED \<or> t = FAILED"
    "idexSyncOrder w1 = map (settle ?oid t p) (idexSyncOrder w)"
    "db_fault w1 = db_fault w" "db_log w1 = db_log w @ ext1"
    "\<forall>i. status_updates i ext1 = (if i = ?oid then [IN_PROGRESS, t] else [])"
    by blast
  have acc1: "accepts_orders w1" using Cons.prems(1) o(4) by (simp add: accepts_orders_def)
  have "ord_id (settle ?oid t p x) = ord_id x" for x by (simp add: settle_def)
  then have "map ord_id (idexSyncOrder w1) = map ord_id (idexSyncOrder w)"
    unfolding o(3) by (simp add: comp_def)
  from arg_cong[OF this, of set]
  have ids1: "ord_id ` set (idexSyncOrder w1) = ord_id ` set (idexSyncOrder w)" by simp
  have sub1: "ord_id ` set rest \<subseteq> ord_id ` set (idexSyncOrder w1)"
    using Cons.prems(2) ids1 by auto
  have d1: "distinct (map ord_id rest)" "?oid \<notin> ord_id ` set rest"
    using Cons.prems(3) by auto
  from Cons.IH[OF acc1 sub1 d1(1)]
  obtain ext2 where r: "fst (process_orders rest w1) = Inr ()"
    "db_log (snd (process_orders rest w1)) = db_log w1 @ ext2"
    "list_all2 (order_step (ord_id ` set rest) ext2) (idexSyncOrder w1)
       (idexSyncOrder (snd (process_orders rest w1)))"
    by blast
  have eq: "process_orders (order # rest) w = process_orders rest w1"
    using o(1) by simp
  have step: "order_step (ord_id ` set (order # rest)) (ext1 @ ext2) x x'"
    if "order_step (ord_id ` set rest) ext2 (settle ?oid t p x) x'" for x x'
  proof (cases "ord_id x = ?oid")
    case True
    with that d1(2) o(2,6) show ?thesis
      by (auto simp: order_step_def settle_def status_updates_append)
  next
    case False
    with that o(6) show ?thesis
      by (auto simp: order_step_def settle_def status_updates_append)
  qed
  have "list_all2 (order_step (ord_id ` set (order # rest)) (ext1 @ ext2)) (idexSyncOrder w)
          (idexSyncOrder (snd (process_orders rest w1)))"
    using r(3) unfolding o(3) list_all2_map1
    by (rule list_all2_mono) (rule step)
  with r(1,2) o(5) show ?case unfolding eq by (intro exI[of _ "ext1 @ ext2"]) simp
qed

text \<open>The equations that evaluate a run of the order processor in an example world.\<close>

lemmas order_eval_defs = processPendingIdexSyncOrders_def process_order_def fail_order_def
  determineCabinetsToSync_def sync_cabinet_def indexed_def determinePages_def js_index_def
  idexSyncOrder_findMany_def idexSyncOrder_update_by_id_def idexCabinet_findMany_def
  idexCabinet_findUnique_def update_order_def
  login_def login_loop.simps saveTransactions_def idexTransaction_findMany_cabinet_def
  idexTransaction_create_def unreachable_def pair_key_small pair_key_match isSafeInteger_def
  promise_all.simps waiting_def attempt_def withRetry_call_def int32_def int64_def

lemma findMany_accepted:
  assumes "accepts_orders w"
  shows "withRetry_default (idexSyncOrder_findMany st) w =
           (Inr (filter (\<lambda>x. ord_status x = st) (idexSyncOrder w)),
            w\<lparr>db_log := db_log w @ [OrderFindMany st]\<rparr>)"
proof -
  have "db_fault w (OrderFindMany st) (length (db_log w)) = None"
    using assms by (simp add: accepts_orders_def order_request_def)
  then have f: "idexSyncOrder_findMany st w =
           (Inr (filter (\<lambda>x. ord_status x = st) (idexSyncOrder w)),
            w\<lparr>db_log := db_log w @ [OrderFindMany st]\<rparr>)"
    by (simp add: idexSyncOrder_findMany_def db_call_def)
  show ?thesis
    unfolding withRetry_default_def
    using withRetry_stop[where fn="idexSyncOrder_findMany st" and w=w] f by simp
qed

text \<open>
  C4, as the code has it.  When the store rejects no request on the order table and the
  order ids are distinct, a run of the order processor sends to every order that was
  \<open>PENDING\<close> exactly two updates, \<open>IN_PROGRESS\<close> and then \<open>COMPLETED\<close> or \<open>FAILED\<close>, and the
  order ends in that status; every other order is left as it was and is sent no update.
\<close>

theorem order_status_path:
  assumes "accepts_orders w" and "distinct (map ord_id (idexSyncOrder w))"
  shows "list_all2
           (\<lambda>x x'. ord_id x' = ord_id x \<and>
              (if ord_status x = PENDING
               then (ord_status x' = COMPLETED \<or> ord_status x' = FAILED) \<and>
                    status_updates (ord_id x)
                      (drop (length (db_log w)) (db_log (snd (processPendingIdexSyncOrders w)))) =
                      [IN_PROGRESS, ord_status x']
               else x' = x \<and>
                    status_updates (ord_id x)
                      (drop (length (db_log w)) (db_log (snd (processPendingIdexSyncOrders w)))) = []))
           (idexSyncOrder w) (idexSyncOrder (snd (processPendingIdexSyncOrders w)))"
proof -
  let ?pending = "filter (\<lambda>x. ord_status x = PENDING) (idexSyncOrder w)"
  let ?w0 = "w\<lparr>db_log := db_log w @ [OrderFindMany PENDING]\<rparr>"
  have acc0: "accepts_orders ?w0" using assms(1) by (simp add: accepts_orders_def)
  have sub: "ord_id ` set ?pending \<subseteq> ord_id ` set (idexSyncOrder ?w0)" by auto
  have dist: "distinct (map ord_id ?pending)" using assms(2) by (rule distinct_map_filter)
  from process_orders_settle[OF acc0 sub dist]
  obtain ext where p: "fst (process_orders ?pending ?w0) = Inr ()"
    "db_log (snd (process_orders ?pending ?w0)) = db_log ?w0 @ ext"
    "list_all2 (order_step (ord_id ` set ?pending) ext) (idexSyncOrder ?w0)
       (idexSyncOrder (snd (process_orders ?pending ?w0)))"
    by blast
  obtain w' where w': "process_orders ?pending ?w0 = (Inr (), w')"
    using p(1) by (cases "process_orders ?pending ?w0") auto
  have run: "processPendingIdexSyncOrders w = (Inl ReferenceError, w')"
    using findMany_accepted[OF assms(1), of PENDING] w'
    by (simp add: processPendingIdexSyncOrders_def)
  have new: "drop (length (db_log w)) (db_log w') = OrderFindMany PENDING # ext"
    using p(2) w' by simp
  have picked: "ord_id x \<in> ord_id ` set ?pending \<longleftrightarrow> ord_status x = PENDING"
    if "x \<in> set (idexSyncOrder w)" for x
  proof
    assume "ord_id x \<in> ord_id ` set ?pending"
    then obtain y where y: "y \<in> set (idexSyncOrder w)" "ord_status y = PENDING" "ord_id y = ord_id x"
      by auto
    from assms(2) have "inj_on ord_id (set (idexSyncOrder w))" by (simp add: distinct_map)
    with y(1,3) that have "y = x" by (auto dest: inj_onD)
    with y(2) show "ord_status x = PENDING" by simp
  next
    assume "ord_status x = PENDING"
    with that show "ord_id x \<in> ord_id ` set ?pending" by auto
  qed
  have "list_all2 (order_step (ord_id ` set ?pending) ext) (idexSyncOrder w) (idexSyncOrder w')"
    using p(3) w' by simp
  then show ?thesis
    unfolding run snd_conv new
  proof (rule list.rel_mono_strong)
    fix x x'
    assume "x \<in> set (idexSyncOrder w)" and "order_step (ord_id ` set ?pending) ext x x'"
    then show "ord_id x' = ord_id x \<and>
              (if ord_status x = PENDING
               then (ord_status x' = COMPLETED \<or> ord_status x' = FAILED) \<and>
                    status_updates (ord_id x) (OrderFindMany PENDING # ext) = [IN_PROGRESS, ord_status x']
               else x' = x \<and> status_updates (ord_id x) (OrderFindMany PENDING # ext) = [])"
      using picked[of x] unfolding order_step_def by (simp split: if_splits)
  qed
qed

lemma accepts_orders_office: "accepts_orders office_world"
  by (simp add: accepts_orders_def office_world_def empty_world_def)

theorem order_status_path_witness:
  "accepts_orders office_world \<and> distinct (map ord_id (idexSyncOrder office_world)) \<and>
   map ord_status (idexSyncOrder office_world) = [PENDING, COMPLETED, PENDING] \<and>
   map ord_status (idexSyncOrder (snd (processPendingIdexSyncOrders office_world))) =
     [COMPLETED, COMPLETED, FAILED] \<and>
   map (\<lambda>oid. status_updates oid (db_log (snd (processPendingIdexSyncOrders office_world)))) [1, 2, 3] =
     [[IN_PROGRESS, COMPLETED], [], [IN_PROGRESS, FAILED]]"
proof -
  have d: "distinct (map ord_id (idexSyncOrder office_world))"
    by (simp add: office_world_def order_no_def)
  from order_status_path[OF accepts_orders_office d] d accepts_orders_office
  show ?thesis
    by (simp add: order_eval_defs eval_defs office_world_def order_no_def cabinet_no_def
      session_ok_def create_data_def payout_def Let_def upt_rec cookie_header_def make_cookie_def)
qed

text \<open>
  C4, as the claim has it, fails: when the store rejects the update to \<open>IN_PROGRESS\<close>, the
  \<open>catch\<close> block of the order writes \<open>FAILED\<close>, so orders 1 and 3 go from \<open>PENDING\<close> to
  \<open>FAILED\<close> and are never \<open>IN_PROGRESS\<close>.
\<close>

theorem order_failed_from_pending:
  "ord_status (order_no 1 None PENDING) = PENDING \<and>
   db_fault stalled_world (OrderUpdate 1 IN_PROGRESS None) 1 = Some pool_timeout \<and>
   db_log (snd (processPendingIdexSyncOrders stalled_world)) =
     [OrderFindMany PENDING,
      OrderUpdate 1 IN_PROGRESS None, OrderUpdate 1 FAILED (Some (OrderError pool_timeout)),
      OrderUpdate 3 IN_PROGRESS None, OrderUpdate 3 FAILED (Some (OrderError pool_timeout))] \<and>
   idexSyncOrder (snd (processPendingIdexSyncOrders stalled_world)) =
     [(order_no 1 None FAILED)\<lparr>ord_processed := Some (OrderError pool_timeout)\<rparr>,
      order_no 2 None COMPLETED,
      (order_no 3 (Some 99) FAILED)\<lparr>ord_processed := Some (OrderError pool_timeout)\<rparr>]"
  by (simp add: order_eval_defs eval_defs stalled_world_def office_world_def order_no_def
      pool_timeout_def)











end
